theory Spec2Isabelle
  imports Main
begin

section \<open>Build artifact resolution (BuildFolderResolver.ts)\<close>

text \<open>
  A shallow embedding of \<^verbatim>\<open>src/services/BuildFolderResolver.ts\<close>. The class talks to
  three collaborators: the Node file system (\<^verbatim>\<open>fs\<close>, \<^verbatim>\<open>path\<close>), the editor
  configuration and workspace (\<^verbatim>\<open>vscode.workspace\<close>) and the editor window
  (\<^verbatim>\<open>vscode.window\<close>). Everything the code reads from them is a field of the record
  \<open>env\<close>; everything it does to them (directory listings, notifications, the choice
  prompt) is written to an effect log that the functions return next to their value.
  The \<^verbatim>\<open>debug\<close> flag only guards \<^verbatim>\<open>console.log\<close> calls and is left out.
\<close>

subsection \<open>Data model\<close>

text \<open>
  \<^verbatim>\<open>fs.Dirent\<close>: an entry of a directory listing read with \<^verbatim>\<open>withFileTypes\<close>.
  \<^verbatim>\<open>d.isDirectory()\<close> holds for a real directory only; a symbolic link, whatever it
  points to, reports \<open>SymbolicLink\<close>.
\<close>

datatype dirent_type = File | Directory | SymbolicLink | Other

record dirent =
  name :: string
  dtype :: dirent_type

definition isDirectory :: "dirent \<Rightarrow> bool" where
  "isDirectory d = (dtype d = Directory)"

text \<open>\<^verbatim>\<open>interface BuildPaths { map: string; elf: string; toolchainPath?: string }\<close>\<close>

record BuildPaths =
  map_path :: string
  elf_path :: string
  toolchainPath :: "string option"

text \<open>The quick-pick items built by \<^verbatim>\<open>resolve\<close> (lines 54 and 68 to 73).\<close>

record item =
  label :: string
  detail :: string
  elf :: string
  map_file :: string

text \<open>
  The messages of the \<^verbatim>\<open>Error\<close>s thrown by \<^verbatim>\<open>resolve\<close>, in the order of the source:
  'No workspace folder open', 'No build folders containing both .map and .elf found',
  'No matching .elf and .map files found', 'Selection cancelled'. \<open>FsError\<close> is the
  exception of \<^verbatim>\<open>fs.readdirSync(folder)\<close> at line 57, which no handler catches.
\<close>

datatype error =
  NoWorkspaceError
  | NoBuildFolderFoundError
  | NoMatchingArtifactsError
  | SelectionCancelledError
  | FsError string

datatype notice = Information string | Warning string

record effects =
  listings :: "string list"
  prompts :: "item list list"
  notices :: "notice list"

text \<open>
  The environment. \<open>readdirSync\<close> is \<^verbatim>\<open>fs.readdirSync(dir, {withFileTypes: true})\<close>,
  \<open>None\<close> when it throws; without \<^verbatim>\<open>withFileTypes\<close> it returns the names of the same
  entries. \<open>access\<close> tells whether \<^verbatim>\<open>fs.promises.access(p, R_OK)\<close> resolves.
  \<open>path_join\<close> is \<^verbatim>\<open>path.join\<close> of the platform. \<open>toLowerCase\<close> is
  \<^verbatim>\<open>String.prototype.toLowerCase\<close>, the case mapping of the JavaScript runtime over
  all of Unicode: it is taken as it is, and nothing is assumed of it.
  \<open>isCaseInsensitive\<close> is the platform test of line 145. \<open>showQuickPick\<close> is the answer of the user to the prompt,
  \<open>None\<close> when the prompt is dismissed. \<open>realpath\<close> is the directory a path denotes
  once every symbolic link is followed; the code never reads it.
\<close>

record env =
  readdirSync :: "string \<Rightarrow> dirent list option"
  existsSync :: "string \<Rightarrow> bool"
  access :: "string \<Rightarrow> bool"
  realpath :: "string \<Rightarrow> string"
  path_join :: "string \<Rightarrow> string \<Rightarrow> string"
  asRelativePath :: "string \<Rightarrow> string"
  toLowerCase :: "string \<Rightarrow> string"
  isCaseInsensitive :: bool
  mapFilePath :: "string option"
  elfFilePath :: "string option"
  cfg_toolchainPath :: "string option"
  workspaceFolders :: "string list option"
  showQuickPick :: "item list \<Rightarrow> item option"

subsection \<open>Strings\<close>

text \<open>\<^verbatim>\<open>String.prototype.endsWith\<close>: a case-sensitive suffix test.\<close>

definition endsWith :: "string \<Rightarrow> string \<Rightarrow> bool" where
  "endsWith s suf = (length suf \<le> length s \<and> drop (length s - length suf) s = suf)"

text \<open>
  \<^verbatim>\<open>path.basename(p, ext)\<close> for an entry name \<open>p\<close>, which holds no separator: the
  name without \<open>ext\<close> when it ends with it, the name itself otherwise.
\<close>

definition basename :: "string \<Rightarrow> string \<Rightarrow> string" where
  "basename p ext =
     (if ext \<noteq> [] \<and> endsWith p ext then take (length p - length ext) p else p)"

subsection \<open>The walker (findBuildFolders, lines 138 to 183)\<close>

text \<open>
  The state of one call of \<^verbatim>\<open>findBuildFolders\<close>: the two \<^verbatim>\<open>Set\<close>s of the source, and the
  trace \<open>listed\<close> of the paths given to \<^verbatim>\<open>readdirSync\<close>, oldest first. A JavaScript
  \<^verbatim>\<open>Set\<close> keeps insertion order, which \<^verbatim>\<open>Array.from(found)\<close> returns, so \<open>found\<close>
  is a list without duplicates.
\<close>

record wstate =
  visited :: "string set"
  found :: "string list"
  listed :: "string list"

definition set_add :: "'a \<Rightarrow> 'a list \<Rightarrow> 'a list" where
  "set_add x xs = (if x \<in> set xs then xs else xs @ [x])"

definition key_of :: "env \<Rightarrow> string \<Rightarrow> string" where
  "key_of e dir = (if isCaseInsensitive e then toLowerCase e dir else dir)"

text \<open>
  \<^verbatim>\<open>walk\<close> is recursive on the directory tree, which the model cannot know to be
  finite: the first argument bounds the depth of the recursion, and \<open>None\<close> says that
  the bound was reached before the walk returned. \<open>walk_entries\<close> is the \<^verbatim>\<open>for\<close> loop
  of lines 154 to 163 with its two flags \<open>(hasMap, hasElf)\<close>. An exception of
  \<^verbatim>\<open>readdirSync\<close> leaves the \<^verbatim>\<open>try\<close> block before the flags are tested.
\<close>

fun walk :: "nat \<Rightarrow> env \<Rightarrow> string \<Rightarrow> wstate \<Rightarrow> wstate option"
  and walk_entries ::
    "nat \<Rightarrow> env \<Rightarrow> string \<Rightarrow> dirent list \<Rightarrow> bool \<times> bool \<Rightarrow> wstate \<Rightarrow> ((bool \<times> bool) \<times> wstate) option"
where
  "walk 0 e dir st = None"
| "walk (Suc n) e dir st =
     (let key = key_of e dir in
      if key \<in> visited st then Some st
      else
        let st1 = st\<lparr>visited := insert key (visited st), listed := listed st @ [dir]\<rparr> in
        case readdirSync e dir of
          None \<Rightarrow> Some st1
        | Some ds \<Rightarrow>
            (case walk_entries n e dir ds (False, False) st1 of
               None \<Rightarrow> None
             | Some ((hasMap, hasElf), st2) \<Rightarrow>
                 Some (if hasMap \<and> hasElf then st2\<lparr>found := set_add dir (found st2)\<rparr> else st2)))"
| "walk_entries n e dir [] flags st = Some (flags, st)"
| "walk_entries n e dir (d # ds) (hasMap, hasElf) st =
     (let full = path_join e dir (name d) in
      if isDirectory d then
        (case walk n e full st of
           None \<Rightarrow> None
         | Some st' \<Rightarrow> walk_entries n e dir ds (hasMap, hasElf) st')
      else if endsWith (name d) ''.map'' then walk_entries n e dir ds (True, hasElf) st
      else if endsWith (name d) ''.elf'' then walk_entries n e dir ds (hasMap, True) st
      else walk_entries n e dir ds (hasMap, hasElf) st)"

definition common_names :: "string list" where
  "common_names = [''build'', ''Build'', ''Release'', ''Debug'', ''out'', ''output'']"

text \<open>The loop of lines 173 to 177 over the conventional folders.\<close>

fun walk_common :: "nat \<Rightarrow> env \<Rightarrow> string list \<Rightarrow> wstate \<Rightarrow> wstate option" where
  "walk_common n e [] st = Some st"
| "walk_common n e (c # cs) st =
     (if existsSync e c then
        (case walk n e c st of
           None \<Rightarrow> None
         | Some st' \<Rightarrow> walk_common n e cs st')
      else walk_common n e cs st)"

definition init_wstate :: wstate where
  "init_wstate = \<lparr>visited = {}, found = [], listed = []\<rparr>"

text \<open>
  \<^verbatim>\<open>findBuildFolders\<close> returns \<^verbatim>\<open>Array.from(found)\<close>; the model returns the whole final
  state, of which \<open>found\<close> is that array.
\<close>

definition findBuildFolders :: "nat \<Rightarrow> env \<Rightarrow> string \<Rightarrow> wstate option" where
  "findBuildFolders n e root =
     (let common = map (path_join e root) common_names in
      case walk_common n e common init_wstate of
        None \<Rightarrow> None
      | Some st1 \<Rightarrow> if found st1 = [] then walk n e root st1 else Some st1)"

subsection \<open>The entry point (resolve, lines 20 to 136)\<close>

text \<open>
  \<^verbatim>\<open>exists\<close> (lines 128 to 136) turns a rejected \<^verbatim>\<open>access\<close> into \<^verbatim>\<open>false\<close>.
\<close>

definition exists :: "env \<Rightarrow> string \<Rightarrow> bool" where
  "exists e filePath = access e filePath"

text \<open>
  \<^verbatim>\<open>getToolchainPath\<close> (lines 106 to 126), with the notifications it shows. An
  undefined or empty setting is falsy.
\<close>

definition getToolchainPath :: "env \<Rightarrow> string option \<times> notice list" where
  "getToolchainPath e =
     (case cfg_toolchainPath e of
        None \<Rightarrow> (None, [])
      | Some toolchain \<Rightarrow>
          if toolchain = [] then (None, [])
          else if exists e toolchain then
            (Some toolchain,
             [Information (''STM32 Build Analyzer: Using toolchain from '' @ toolchain)])
          else
            (None, [Warning (''STM32 Build Analyzer: toolchainPath not found: '' @ toolchain)]))"

text \<open>
  The inner loop of lines 61 to 75 over the \<^verbatim>\<open>.elf\<close> names of one folder; \<open>items\<close> is
  the array the loop pushes to. \<^verbatim>\<open>if (map)\<close> tests the found name for truthiness.
\<close>

fun pair_elfs :: "env \<Rightarrow> string \<Rightarrow> string list \<Rightarrow> string list \<Rightarrow> item list \<Rightarrow> item list" where
  "pair_elfs e folder maps [] items = items"
| "pair_elfs e folder maps (elf_name # elfs) items =
     (let stem = basename elf_name ''.elf'' in
      case find (\<lambda>m. m = stem @ ''.map'') maps of
        None \<Rightarrow> pair_elfs e folder maps elfs items
      | Some m \<Rightarrow>
          if m = [] then pair_elfs e folder maps elfs items
          else
            pair_elfs e folder maps elfs
              (items @
               [\<lparr>label = ''$(file-binary) '' @ stem,
                 detail = asRelativePath e folder,
                 elf = path_join e folder elf_name,
                 map_file = path_join e folder m\<rparr>]))"

text \<open>
  The outer loop of lines 56 to 76 over the found folders. The second component is the
  trace of directory listings, which the loop extends by one per folder.
\<close>

fun collect_items ::
  "env \<Rightarrow> string list \<Rightarrow> item list \<Rightarrow> string list \<Rightarrow> (error + item list) \<times> string list" where
  "collect_items e [] items tr = (Inr items, tr)"
| "collect_items e (folder # folders) items tr =
     (case readdirSync e folder of
        None \<Rightarrow> (Inl (FsError folder), tr @ [folder])
      | Some ds \<Rightarrow>
          (let files = map name ds;
               elfs = filter (\<lambda>f. endsWith f ''.elf'') files;
               maps = filter (\<lambda>f. endsWith f ''.map'') files
           in collect_items e folders (pair_elfs e folder maps elfs items) (tr @ [folder])))"

text \<open>The \<^verbatim>\<open>return\<close> of lines 99 to 103 (and of 33 to 37), after the effects \<open>fx\<close>.\<close>

definition finish :: "env \<Rightarrow> string \<Rightarrow> string \<Rightarrow> effects \<Rightarrow> (error + BuildPaths) \<times> effects" where
  "finish e m b fx =
     (let (toolchain, ns) = getToolchainPath e in
      (Inr \<lparr>map_path = m, elf_path = b, toolchainPath = toolchain\<rparr>,
       fx\<lparr>notices := notices fx @ ns\<rparr>))"

text \<open>Lines 78 to 103: the choice among the collected items.\<close>

definition select_item ::
  "env \<Rightarrow> item list \<Rightarrow> string list \<Rightarrow> (error + BuildPaths) \<times> effects" where
  "select_item e items tr =
     (case items of
        [] \<Rightarrow> (Inl NoMatchingArtifactsError, \<lparr>listings = tr, prompts = [], notices = []\<rparr>)
      | selectedItem # rest \<Rightarrow>
          if length items > 1 then
            (case showQuickPick e items of
               None \<Rightarrow>
                 (Inl SelectionCancelledError,
                  \<lparr>listings = tr, prompts = [items], notices = []\<rparr>)
             | Some pick \<Rightarrow>
                 finish e (map_file pick) (elf pick)
                   \<lparr>listings = tr, prompts = [items], notices = []\<rparr>)
          else
            finish e (map_file selectedItem) (elf selectedItem)
              \<lparr>listings = tr, prompts = [], notices = []\<rparr>)"

definition no_effects :: effects where
  "no_effects = \<lparr>listings = [], prompts = [], notices = []\<rparr>"

text \<open>
  The condition of line 31: both settings truthy (defined and not the empty string)
  and both files readable.
\<close>

definition fast_path :: "env \<Rightarrow> (string \<times> string) option" where
  "fast_path e =
     (case (mapFilePath e, elfFilePath e) of
        (Some customMap, Some customElf) \<Rightarrow>
          if customMap \<noteq> [] \<and> customElf \<noteq> [] \<and> exists e customMap \<and> exists e customElf
          then Some (customMap, customElf) else None
      | _ \<Rightarrow> None)"

text \<open>
  \<^verbatim>\<open>resolve\<close>. The result is \<open>None\<close> when the walk did not return within the depth
  bound \<open>n\<close>, else the outcome (the paths, or the error thrown) and the effects.
\<close>

definition resolve :: "nat \<Rightarrow> env \<Rightarrow> ((error + BuildPaths) \<times> effects) option" where
  "resolve n e =
     (case fast_path e of
        Some (customMap, customElf) \<Rightarrow> Some (finish e customMap customElf no_effects)
      | None \<Rightarrow>
          (case workspaceFolders e of
             None \<Rightarrow> Some (Inl NoWorkspaceError, no_effects)
           | Some [] \<Rightarrow> Some (Inl NoWorkspaceError, no_effects)
           | Some (root # others) \<Rightarrow>
               (case findBuildFolders n e root of
                  None \<Rightarrow> None
                | Some st \<Rightarrow>
                    if length (found st) = 0 then
                      Some (Inl NoBuildFolderFoundError,
                            \<lparr>listings = listed st, prompts = [], notices = []\<rparr>)
                    else
                      (case collect_items e (found st) [] (listed st) of
                         (Inl err, tr) \<Rightarrow>
                           Some (Inl err, \<lparr>listings = tr, prompts = [], notices = []\<rparr>)
                       | (Inr items, tr) \<Rightarrow> Some (select_item e items tr)))))"

subsection \<open>The predicates of the claims\<close>

text \<open>
  The definitions from here on are not code of the repository: they are the notions the
  claims are stated with. \<open>has_file ext ds\<close>: the listing \<open>ds\<close> holds an entry that is
  not a directory and whose name ends with \<open>ext\<close>.
\<close>

definition has_file :: "string \<Rightarrow> dirent list \<Rightarrow> bool" where
  "has_file ext ds = list_ex (\<lambda>d. \<not> isDirectory d \<and> endsWith (name d) ext) ds"

text \<open>
  A directory is \<open>colocated\<close> when its own listing, which must not fail, holds a file
  of each kind.
\<close>

definition colocated :: "env \<Rightarrow> string \<Rightarrow> bool" where
  "colocated e D =
     (case readdirSync e D of
        None \<Rightarrow> False
      | Some ds \<Rightarrow> has_file ''.elf'' ds \<and> has_file ''.map'' ds)"

text \<open>The paths listed between the state \<open>st\<close> and the later state \<open>st'\<close>.\<close>

definition new_listed :: "wstate \<Rightarrow> wstate \<Rightarrow> string list" where
  "new_listed st st' = drop (length (listed st)) (listed st')"

text \<open>
  What every walk does to the state: it lists new paths, whose keys are pairwise
  distinct and were not visited, marks exactly their keys as visited, and adds to the
  found folders exactly the new paths that are colocated.
\<close>

definition grows :: "env \<Rightarrow> wstate \<Rightarrow> wstate \<Rightarrow> bool" where
  "grows e st st' =
     (let new = new_listed st st' in
      listed st' = listed st @ new \<and>
      visited st' = visited st \<union> key_of e ` set new \<and>
      distinct (map (key_of e) new) \<and>
      key_of e ` set new \<inter> visited st = {} \<and>
      set (found st') = set (found st) \<union> {D \<in> set new. colocated e D})"

text \<open>
  \<open>has_parent e new q\<close>: the path \<open>q\<close> is the join of a path \<open>p\<close> of \<open>new\<close> with the
  name of an entry that the listing of \<open>p\<close> reports as a real directory.
\<close>

definition has_parent :: "env \<Rightarrow> string list \<Rightarrow> string \<Rightarrow> bool" where
  "has_parent e new q =
     list_ex (\<lambda>p. case readdirSync e p of
                    None \<Rightarrow> False
                  | Some ds \<Rightarrow> list_ex (\<lambda>d. isDirectory d \<and> q = path_join e p (name d)) ds) new"


text \<open>
  \<open>depth_le n e dir\<close>: the tree of real directories below \<open>dir\<close> has fewer than \<open>n\<close>
  levels below it, so that a walk from \<open>dir\<close> needs no more than the bound \<open>n\<close>.
\<close>

fun depth_le :: "nat \<Rightarrow> env \<Rightarrow> string \<Rightarrow> bool" where
  "depth_le 0 e dir = False"
| "depth_le (Suc n) e dir =
     (case readdirSync e dir of
        None \<Rightarrow> True
      | Some ds \<Rightarrow> list_all (\<lambda>d. isDirectory d \<longrightarrow> depth_le n e (path_join e dir (name d))) ds)"

text \<open>
  The stem of a binary name is the name without its last four characters, the
  extension \<^verbatim>\<open>.elf\<close>. A name \<open>b\<close> of the listing \<open>files\<close> is \<open>paired\<close> when it ends
  with \<^verbatim>\<open>.elf\<close> and its stem followed by \<^verbatim>\<open>.map\<close> is a name of \<open>files\<close>; its
  \<open>candidate\<close> joins the folder with the two names.
\<close>

definition stem :: "string \<Rightarrow> string" where
  "stem f = take (length f - length ''.elf'') f"

definition candidate :: "env \<Rightarrow> string \<Rightarrow> string \<Rightarrow> item" where
  "candidate e folder b =
     \<lparr>label = ''$(file-binary) '' @ stem b,
      detail = asRelativePath e folder,
      elf = path_join e folder b,
      map_file = path_join e folder (stem b @ ''.map'')\<rparr>"

definition paired :: "string list \<Rightarrow> string \<Rightarrow> bool" where
  "paired files b = (endsWith b ''.elf'' \<and> stem b @ ''.map'' \<in> set files)"

definition candidates_in :: "env \<Rightarrow> string \<Rightarrow> string list \<Rightarrow> item list" where
  "candidates_in e folder files = map (candidate e folder) (filter (paired files) files)"

text \<open>The names that \<^verbatim>\<open>fs.readdirSync(folder)\<close> returns, and the candidates of a list of folders.\<close>

definition names_in :: "env \<Rightarrow> string \<Rightarrow> string list" where
  "names_in e folder = (case readdirSync e folder of None \<Rightarrow> [] | Some ds \<Rightarrow> map name ds)"

definition all_candidates :: "env \<Rightarrow> string list \<Rightarrow> item list" where
  "all_candidates e folders = concat (map (\<lambda>f. candidates_in e f (names_in e f)) folders)"

text \<open>The listing \<open>ds\<close> holds a symbolic link whose name ends with \<open>ext\<close>.\<close>

definition has_link :: "string \<Rightarrow> dirent list \<Rightarrow> bool" where
  "has_link ext ds = list_ex (\<lambda>d. dtype d = SymbolicLink \<and> endsWith (name d) ext) ds"

text \<open>
  \<open>children_visited e new V\<close>: for every path of \<open>new\<close> that can be listed, the key of
  each entry that the listing reports as a real directory is in \<open>V\<close>.
\<close>

definition children_visited :: "env \<Rightarrow> string list \<Rightarrow> string set \<Rightarrow> bool" where
  "children_visited e new V =
     list_all (\<lambda>p. case readdirSync e p of
                     None \<Rightarrow> True
                   | Some ds \<Rightarrow>
                       list_all (\<lambda>d. isDirectory d \<longrightarrow> key_of e (path_join e p (name d)) \<in> V) ds)
       new"

text \<open>The walks of a list of roots, one after the other, on one state.\<close>

fun walk_list :: "nat \<Rightarrow> env \<Rightarrow> string list \<Rightarrow> wstate \<Rightarrow> wstate option" where
  "walk_list n e [] st = Some st"
| "walk_list n e (c # cs) st =
     (case walk n e c st of None \<Rightarrow> None | Some st' \<Rightarrow> walk_list n e cs st')"



text \<open>
  \<open>retool e r\<close> puts the toolchain of \<open>e\<close> into a result computed without one: an
  error is left as it is, a success gets the toolchain path and the notices.
\<close>

definition retool :: "env \<Rightarrow> (error + BuildPaths) \<times> effects \<Rightarrow> (error + BuildPaths) \<times> effects" where
  "retool e r =
     (case r of
        (Inl err, fx) \<Rightarrow> (Inl err, fx)
      | (Inr paths, fx) \<Rightarrow>
          (Inr (paths\<lparr>toolchainPath := fst (getToolchainPath e)\<rparr>),
           fx\<lparr>notices := notices fx @ snd (getToolchainPath e)\<rparr>))"

text \<open>Two environments with the same file system, as far as the search reads it.\<close>

definition same_fs :: "env \<Rightarrow> env \<Rightarrow> bool" where
  "same_fs e' e =
     (readdirSync e' = readdirSync e \<and> path_join e' = path_join e \<and>
      isCaseInsensitive e' = isCaseInsensitive e \<and> toLowerCase e' = toLowerCase e \<and>
      existsSync e' = existsSync e \<and>
      asRelativePath e' = asRelativePath e)"

subsection \<open>Example environments\<close>

text \<open>
  Small POSIX workspaces rooted at \<^verbatim>\<open>/w\<close>, on which the theorems are run. Every
  path that is not named cannot be listed and does not exist.
\<close>

definition regular :: "string \<Rightarrow> dirent" where "regular n = \<lparr>name = n, dtype = File\<rparr>"

definition subdir :: "string \<Rightarrow> dirent" where "subdir n = \<lparr>name = n, dtype = Directory\<rparr>"

definition symlink :: "string \<Rightarrow> dirent" where "symlink n = \<lparr>name = n, dtype = SymbolicLink\<rparr>"

text \<open>
  The paths of the examples are ASCII, on which \<^verbatim>\<open>toLowerCase\<close> maps the letters A to
  Z to a to z and leaves every other character as it is.
\<close>

definition ascii_lower :: "char \<Rightarrow> char" where
  "ascii_lower c =
     (let n = (of_char c :: nat) in if 65 \<le> n \<and> n \<le> 90 then char_of (n + 32) else c)"

definition base_env :: env where
  "base_env =
     \<lparr>readdirSync = (\<lambda>p. None), existsSync = (\<lambda>p. False), access = (\<lambda>p. False),
      realpath = (\<lambda>p. p), path_join = (\<lambda>d n. d @ ''/'' @ n), asRelativePath = (\<lambda>p. p),
      toLowerCase = map ascii_lower, isCaseInsensitive = False, mapFilePath = None, elfFilePath = None,
      cfg_toolchainPath = None, workspaceFolders = Some [''/w''],
      showQuickPick = (\<lambda>items. None)\<rparr>"

text \<open>
  \<open>build_env\<close>: the build folder holds one pair, a map file without binary and a
  binary without map file. \<open>fast_env\<close>: the same workspace with both explicit
  settings pointing at readable files outside of it.
\<close>

definition build_env :: env where
  "build_env =
     base_env\<lparr>
       readdirSync :=
         [''/w'' \<mapsto> [subdir ''build'', regular ''main.c''],
          ''/w/build'' \<mapsto>
            [regular ''app.elf'', regular ''app.map'', regular ''other.map'', regular ''lone.elf'']],
       existsSync := (\<lambda>p. p \<in> {''/w'', ''/w/build''})\<rparr>"

definition fast_env :: env where
  "fast_env =
     build_env\<lparr>
       mapFilePath := Some ''/cfg/fw.map'', elfFilePath := Some ''/cfg/fw.elf'',
       access := (\<lambda>p. p \<in> {''/cfg/fw.map'', ''/cfg/fw.elf''})\<rparr>"

text \<open>\<open>nested_env\<close>: the binary lies in the root, the map file only in a subdirectory.\<close>

definition nested_env :: env where
  "nested_env =
     base_env\<lparr>
       readdirSync :=
         [''/w'' \<mapsto> [regular ''app.elf'', subdir ''sub''],
          ''/w/sub'' \<mapsto> [regular ''app.map'']],
       existsSync := (\<lambda>p. p \<in> {''/w'', ''/w/sub''})\<rparr>"

text \<open>
  \<open>symlink_env\<close>: \<^verbatim>\<open>/w/build\<close> is a symbolic link to the directory \<^verbatim>\<open>/w/out\<close>. The
  listing of the root reports it as a link; \<^verbatim>\<open>existsSync\<close> and \<^verbatim>\<open>readdirSync\<close>
  follow the link, so that both paths exist and list the same two files.
\<close>

definition symlink_env :: env where
  "symlink_env =
     base_env\<lparr>
       readdirSync :=
         [''/w'' \<mapsto> [symlink ''build'', subdir ''out''],
          ''/w/build'' \<mapsto> [regular ''app.elf'', regular ''app.map''],
          ''/w/out'' \<mapsto> [regular ''app.elf'', regular ''app.map'']],
       existsSync := (\<lambda>p. p \<in> {''/w'', ''/w/build'', ''/w/out''}),
       realpath := (\<lambda>p. if p = ''/w/build'' then ''/w/out'' else p)\<rparr>"

text \<open>
  \<open>ci_env\<close>: a platform taken to be case-insensitive, on which \<^verbatim>\<open>/w/build\<close> and
  \<^verbatim>\<open>/w/Build\<close> are two spellings of one folder.
\<close>

definition ci_env :: env where
  "ci_env =
     base_env\<lparr>
       isCaseInsensitive := True,
       readdirSync :=
         [''/w'' \<mapsto> [subdir ''build''],
          ''/w/build'' \<mapsto> [regular ''app.elf'', regular ''app.map''],
          ''/w/Build'' \<mapsto> [regular ''app.elf'', regular ''app.map'']],
       existsSync := (\<lambda>p. p \<in> {''/w'', ''/w/build'', ''/w/Build''})\<rparr>"

text \<open>
  \<open>link_env\<close>: the root holds a link \<^verbatim>\<open>ext\<close> to a directory outside the workspace
  that holds a pair, a link named \<^verbatim>\<open>app.elf\<close> and a regular \<^verbatim>\<open>app.map\<close>.
\<close>

definition link_env :: env where
  "link_env =
     base_env\<lparr>
       readdirSync :=
         [''/w'' \<mapsto> [symlink ''ext'', symlink ''app.elf'', regular ''app.map''],
          ''/w/ext'' \<mapsto> [regular ''x.elf'', regular ''x.map'']],
       existsSync := (\<lambda>p. p \<in> {''/w'', ''/w/ext''}),
       realpath := (\<lambda>p. if p = ''/w/ext'' then ''/elsewhere'' else p)\<rparr>"

text \<open>
  \<open>two_env\<close>: two pairs in one build folder, and a user who dismisses the prompt;
  \<open>two_items\<close> are its candidates. \<open>mismatch_env\<close>: a binary and a map file of
  different stems. \<open>locked_env\<close>: \<^verbatim>\<open>/w/locked\<close> is a directory that cannot be
  listed, beside \<^verbatim>\<open>/w/fw\<close>, which holds a pair. \<open>tool_env\<close>: \<open>build_env\<close> with a
  toolchain path that is not readable.
\<close>

definition two_env :: env where
  "two_env =
     base_env\<lparr>
       readdirSync :=
         [''/w'' \<mapsto> [subdir ''build''],
          ''/w/build'' \<mapsto>
            [regular ''a.elf'', regular ''a.map'', regular ''b.elf'', regular ''b.map'']],
       existsSync := (\<lambda>p. p \<in> {''/w'', ''/w/build''})\<rparr>"



text \<open>
  \<open>order_env\<close>: a pair in \<^verbatim>\<open>/w/proj\<close> and a pair in its subdirectory
  \<^verbatim>\<open>/w/proj/sub\<close>; \<open>order_items\<close> are its candidates, in the order of the prompt.
  \<open>linkroot_env\<close>: the only entry of the root is \<^verbatim>\<open>build\<close>, a symbolic link to a
  directory outside the workspace that holds a pair. \<open>dirpair_env\<close>: the build
  folder holds an empty directory named \<^verbatim>\<open>fw.elf\<close>, and the files \<^verbatim>\<open>fw.map\<close> and
  \<^verbatim>\<open>z.elf\<close>.
\<close>

definition order_env :: env where
  "order_env =
     base_env\<lparr>
       readdirSync :=
         [''/w'' \<mapsto> [subdir ''proj''],
          ''/w/proj'' \<mapsto> [regular ''top.elf'', regular ''top.map'', subdir ''sub''],
          ''/w/proj/sub'' \<mapsto> [regular ''deep.elf'', regular ''deep.map'']],
       existsSync := (\<lambda>p. p \<in> {''/w'', ''/w/proj'', ''/w/proj/sub''})\<rparr>"

definition order_items :: "item list" where
  "order_items =
     [\<lparr>label = ''$(file-binary) deep'', detail = ''/w/proj/sub'',
       elf = ''/w/proj/sub/deep.elf'', map_file = ''/w/proj/sub/deep.map''\<rparr>,
      \<lparr>label = ''$(file-binary) top'', detail = ''/w/proj'',
       elf = ''/w/proj/top.elf'', map_file = ''/w/proj/top.map''\<rparr>]"

definition linkroot_env :: env where
  "linkroot_env =
     base_env\<lparr>
       readdirSync :=
         [''/w'' \<mapsto> [symlink ''build''],
          ''/w/build'' \<mapsto> [regular ''app.elf'', regular ''app.map'']],
       existsSync := (\<lambda>p. p \<in> {''/w'', ''/w/build''}),
       realpath := (\<lambda>p. if p = ''/w/build'' then ''/elsewhere/out'' else p)\<rparr>"

definition dirpair_env :: env where
  "dirpair_env =
     base_env\<lparr>
       readdirSync :=
         [''/w'' \<mapsto> [subdir ''build''],
          ''/w/build'' \<mapsto> [subdir ''fw.elf'', regular ''fw.map'', regular ''z.elf''],
          ''/w/build/fw.elf'' \<mapsto> []],
       existsSync := (\<lambda>p. p \<in> {''/w'', ''/w/build'', ''/w/build/fw.elf''})\<rparr>"

definition tool_env :: env where
  "tool_env = build_env\<lparr>cfg_toolchainPath := Some ''/opt/gcc''\<rparr>"

definition two_items :: "item list" where
  "two_items =
     [\<lparr>label = ''$(file-binary) a'', detail = ''/w/build'',
       elf = ''/w/build/a.elf'', map_file = ''/w/build/a.map''\<rparr>,
      \<lparr>label = ''$(file-binary) b'', detail = ''/w/build'',
       elf = ''/w/build/b.elf'', map_file = ''/w/build/b.map''\<rparr>]"

section \<open>Verified properties\<close>

lemma growsI:
  "listed st' = listed st @ new \<Longrightarrow> visited st' = visited st \<union> key_of e ` set new \<Longrightarrow>
   distinct (map (key_of e) new) \<Longrightarrow> key_of e ` set new \<inter> visited st = {} \<Longrightarrow>
   set (found st') = set (found st) \<union> {D \<in> set new. colocated e D} \<Longrightarrow> grows e st st'"
  by (simp add: grows_def new_listed_def)

lemma grows_refl: "grows e st st"
  by (simp add: grows_def new_listed_def)

lemma new_listed_trans:
  "listed st1 = listed st @ a \<Longrightarrow> listed st2 = listed st1 @ b \<Longrightarrow> new_listed st st2 = a @ b"
  by (simp add: new_listed_def)

lemma grows_trans:
  assumes "grows e st st1" and "grows e st1 st2"
  shows "grows e st st2"
proof -
  let ?a = "new_listed st st1" and ?b = "new_listed st1 st2"
  from assms have a: "listed st1 = listed st @ ?a" "visited st1 = visited st \<union> key_of e ` set ?a"
    "distinct (map (key_of e) ?a)" "key_of e ` set ?a \<inter> visited st = {}"
    "set (found st1) = set (found st) \<union> {D \<in> set ?a. colocated e D}"
    and b: "listed st2 = listed st1 @ ?b" "visited st2 = visited st1 \<union> key_of e ` set ?b"
    "distinct (map (key_of e) ?b)" "key_of e ` set ?b \<inter> visited st1 = {}"
    "set (found st2) = set (found st1) \<union> {D \<in> set ?b. colocated e D}"
    by (simp_all add: grows_def Let_def)
  have n: "new_listed st st2 = ?a @ ?b" using a(1) b(1) by (rule new_listed_trans)
  show ?thesis
  proof (rule growsI[where new = "?a @ ?b"])
    show "listed st2 = listed st @ (?a @ ?b)" using a(1) b(1) by simp
    show "visited st2 = visited st \<union> key_of e ` set (?a @ ?b)" using a(2) b(2) by auto
    show "distinct (map (key_of e) (?a @ ?b))" using a(2,3) b(3,4) by auto
    show "key_of e ` set (?a @ ?b) \<inter> visited st = {}" using a(2,4) b(4) by auto
    show "set (found st2) = set (found st) \<union> {D \<in> set (?a @ ?b). colocated e D}"
      using a(5) b(5) by auto
  qed
qed

lemma elf_not_map: "endsWith s ''.elf'' \<Longrightarrow> \<not> endsWith s ''.map''"
  by (auto simp: endsWith_def)

lemma walk_grows_aux:
  "(\<forall>st'. walk n e dir st = Some st' \<longrightarrow> grows e st st')"
  "(\<forall>hm he st'. walk_entries n e dir ds fl st = Some ((hm, he), st') \<longrightarrow>
      grows e st st' \<and> hm = (fst fl \<or> has_file ''.map'' ds) \<and> he = (snd fl \<or> has_file ''.elf'' ds))"
proof (induction n e dir st and n e dir ds fl st rule: walk_walk_entries.induct)
  case (1 e dir st)
  then show ?case by simp
next
  case (2 n e dir st)
  show ?case
  proof (intro allI impI)
    fix st' assume w: "walk (Suc n) e dir st = Some st'"
    show "grows e st st'"
    proof (cases "key_of e dir \<in> visited st")
      case True
      with w show ?thesis by (simp add: grows_refl)
    next
      case nv: False
      define st1 where "st1 = st\<lparr>visited := insert (key_of e dir) (visited st), listed := listed st @ [dir]\<rparr>"
      show ?thesis
      proof (cases "readdirSync e dir")
        case None
        with w nv have "st' = st1" by (simp add: st1_def)
        then show ?thesis using nv None
          by (auto intro!: growsI[where new = "[dir]"] simp: st1_def colocated_def)
      next
        case (Some ds)
        with w nv obtain hm he st2 where
          we: "walk_entries n e dir ds (False, False) st1 = Some ((hm, he), st2)"
          and st': "st' = (if hm \<and> he then st2\<lparr>found := set_add dir (found st2)\<rparr> else st2)"
          by (auto simp: st1_def Let_def split: option.splits prod.splits)
        from "2.IH"[OF refl nv st1_def Some] we
        have g: "grows e st1 st2" and hm: "hm = has_file ''.map'' ds" and he: "he = has_file ''.elf'' ds"
          by auto
        let ?b = "new_listed st1 st2"
        from g have b: "listed st2 = listed st1 @ ?b" "visited st2 = visited st1 \<union> key_of e ` set ?b"
          "distinct (map (key_of e) ?b)" "key_of e ` set ?b \<inter> visited st1 = {}"
          "set (found st2) = set (found st1) \<union> {D \<in> set ?b. colocated e D}"
          by (simp_all add: grows_def Let_def)
        have col: "colocated e dir = (hm \<and> he)" using Some hm he by (auto simp: colocated_def)
        show ?thesis
        proof (rule growsI[where new = "dir # ?b"])
          show "listed st' = listed st @ dir # ?b" using b(1) by (simp add: st' st1_def)
          show "visited st' = visited st \<union> key_of e ` set (dir # ?b)"
            using b(2) by (auto simp: st' st1_def)
          show "distinct (map (key_of e) (dir # ?b))" using b(3,4) by (auto simp: st1_def)
          show "key_of e ` set (dir # ?b) \<inter> visited st = {}" using b(4) nv by (auto simp: st1_def)
          show "set (found st') = set (found st) \<union> {D \<in> set (dir # ?b). colocated e D}"
            using b(5) col by (auto simp: st' st1_def set_add_def)
        qed
      qed
    qed
  qed
next
  case (3 n e dir flags st)
  then show ?case by (simp add: grows_refl has_file_def)
next
  case (4 n e dir d ds hasMap hasElf st)
  show ?case
  proof (intro allI impI)
    fix hm he st'
    assume w: "walk_entries n e dir (d # ds) (hasMap, hasElf) st = Some ((hm, he), st')"
    show "grows e st st' \<and> hm = (fst (hasMap, hasElf) \<or> has_file ''.map'' (d # ds)) \<and>
          he = (snd (hasMap, hasElf) \<or> has_file ''.elf'' (d # ds))"
    proof (cases "isDirectory d")
      case True
      with w obtain st1 where w1: "walk n e (path_join e dir (name d)) st = Some st1"
        and w2: "walk_entries n e dir ds (hasMap, hasElf) st1 = Some ((hm, he), st')"
        by (auto simp: Let_def split: option.splits)
      from "4.IH"(1)[OF refl True] w1 have g1: "grows e st st1" by simp
      from "4.IH"(2)[OF refl True w1] w2 have g2: "grows e st1 st'"
        and f: "hm = (hasMap \<or> has_file ''.map'' ds)" "he = (hasElf \<or> has_file ''.elf'' ds)" by auto
      from g1 g2 have "grows e st st'" by (rule grows_trans)
      then show ?thesis using f True by (simp add: has_file_def)
    next
      case nd: False
      show ?thesis
      proof (cases "endsWith (name d) ''.map''")
        case True
        with w nd have w2: "walk_entries n e dir ds (True, hasElf) st = Some ((hm, he), st')"
          by (simp add: Let_def)
        from "4.IH"(3)[OF refl nd True] w2 show ?thesis using nd True elf_not_map[of "name d"]
          by (auto simp: has_file_def)
      next
        case nm: False
        show ?thesis
        proof (cases "endsWith (name d) ''.elf''")
          case True
          with w nd nm have w2: "walk_entries n e dir ds (hasMap, True) st = Some ((hm, he), st')"
            by (simp add: Let_def)
          from "4.IH"(4)[OF refl nd nm True] w2 show ?thesis using nd nm True
            by (auto simp: has_file_def)
        next
          case False
          with w nd nm have w2: "walk_entries n e dir ds (hasMap, hasElf) st = Some ((hm, he), st')"
            by (simp add: Let_def)
          from "4.IH"(5)[OF refl nd nm False] w2 show ?thesis using nd nm False
            by (auto simp: has_file_def)
        qed
      qed
    qed
  qed
qed

lemma walk_grows: "walk n e dir st = Some st' \<Longrightarrow> grows e st st'"
  using walk_grows_aux(1) by blast

lemma walk_common_grows: "walk_common n e cs st = Some st' \<Longrightarrow> grows e st st'"
proof (induction cs arbitrary: st)
  case Nil
  then show ?case by (simp add: grows_refl)
next
  case (Cons c cs)
  show ?case
  proof (cases "existsSync e c")
    case True
    with Cons.prems obtain st1 where w: "walk n e c st = Some st1"
      and r: "walk_common n e cs st1 = Some st'"
      by (auto split: option.splits)
    from walk_grows[OF w] Cons.IH[OF r] show ?thesis by (rule grows_trans)
  next
    case False
    with Cons show ?thesis by simp
  qed
qed

lemma findBuildFolders_grows:
  assumes "findBuildFolders n e root = Some st"
  shows "grows e init_wstate st"
proof -
  from assms obtain st1 where c: "walk_common n e (map (path_join e root) common_names) init_wstate = Some st1"
    and r: "(if found st1 = [] then walk n e root st1 else Some st1) = Some st"
    by (auto simp: findBuildFolders_def Let_def split: option.splits)
  have g1: "grows e init_wstate st1" using c by (rule walk_common_grows)
  show ?thesis
  proof (cases "found st1 = []")
    case True
    with r have "walk n e root st1 = Some st" by simp
    from g1 walk_grows[OF this] show ?thesis by (rule grows_trans)
  next
    case False
    with r g1 show ?thesis by simp
  qed
qed

lemma grows_init:
  assumes "grows e init_wstate st"
  shows "distinct (map (key_of e) (listed st))"
    and "visited st = key_of e ` set (listed st)"
    and "set (found st) = {D \<in> set (listed st). colocated e D}"
  using assms by (simp_all add: grows_def new_listed_def init_wstate_def Let_def)

lemma set_add_distinct: "distinct xs \<Longrightarrow> distinct (set_add x xs)"
  by (simp add: set_add_def)

lemma walk_distinct_aux:
  "(\<forall>st'. walk n e dir st = Some st' \<longrightarrow> distinct (found st) \<longrightarrow> distinct (found st'))"
  "(\<forall>r st'. walk_entries n e dir ds fl st = Some (r, st') \<longrightarrow> distinct (found st) \<longrightarrow> distinct (found st'))"
proof (induction n e dir st and n e dir ds fl st rule: walk_walk_entries.induct)
  case (1 e dir st)
  then show ?case by simp
next
  case (2 n e dir st)
  then show ?case
    by (auto simp: Let_def set_add_distinct split: option.splits if_splits prod.splits)
next
  case (3 n e dir flags st)
  then show ?case by simp
next
  case (4 n e dir d ds hasMap hasElf st)
  then show ?case
    by (auto simp: Let_def split: option.splits if_splits)
qed

lemma walk_distinct: "walk n e dir st = Some st' \<Longrightarrow> distinct (found st) \<Longrightarrow> distinct (found st')"
  using walk_distinct_aux(1) by blast

lemma walk_common_distinct:
  "walk_common n e cs st = Some st' \<Longrightarrow> distinct (found st) \<Longrightarrow> distinct (found st')"
  by (induction cs arbitrary: st) (auto split: option.splits if_splits dest: walk_distinct)

lemma findBuildFolders_distinct:
  "findBuildFolders n e root = Some st \<Longrightarrow> distinct (found st)"
  by (auto simp: findBuildFolders_def Let_def init_wstate_def split: option.splits if_splits
      dest!: walk_common_distinct dest: walk_distinct)

lemma distinct_map_subset:
  "distinct (map f ys) \<Longrightarrow> distinct xs \<Longrightarrow> set xs \<subseteq> set ys \<Longrightarrow> distinct (map f xs)"
  by (metis distinct_map inj_on_subset)

lemma has_parent_mono: "has_parent e new q \<Longrightarrow> set new \<subseteq> set new' \<Longrightarrow> has_parent e new' q"
  by (auto simp: has_parent_def list_ex_iff)

lemma walk_parent_aux:
  "(\<forall>st'. walk n e dir st = Some st' \<longrightarrow>
      (\<forall>q\<in>set (new_listed st st'). q = dir \<or> has_parent e (new_listed st st') q))"
  "(\<forall>r st'. walk_entries n e dir ds fl st = Some (r, st') \<longrightarrow>
      (\<forall>q\<in>set (new_listed st st').
          list_ex (\<lambda>d. isDirectory d \<and> q = path_join e dir (name d)) ds \<or>
          has_parent e (new_listed st st') q))"
proof (induction n e dir st and n e dir ds fl st rule: walk_walk_entries.induct)
  case (1 e dir st)
  then show ?case by simp
next
  case (2 n e dir st)
  show ?case
  proof (intro allI impI)
    fix st' assume w: "walk (Suc n) e dir st = Some st'"
    show "\<forall>q\<in>set (new_listed st st'). q = dir \<or> has_parent e (new_listed st st') q"
    proof (cases "key_of e dir \<in> visited st")
      case True
      with w show ?thesis by (simp add: new_listed_def)
    next
      case nv: False
      define st1 where "st1 = st\<lparr>visited := insert (key_of e dir) (visited st), listed := listed st @ [dir]\<rparr>"
      show ?thesis
      proof (cases "readdirSync e dir")
        case None
        with w nv have "st' = st1" by (simp add: st1_def)
        then show ?thesis by (simp add: st1_def new_listed_def)
      next
        case (Some ds)
        with w nv obtain r st2 where
          we: "walk_entries n e dir ds (False, False) st1 = Some (r, st2)"
          and l: "listed st' = listed st2"
          by (auto simp: st1_def Let_def split: option.splits prod.splits if_splits)
        from walk_grows_aux(2) we have "grows e st1 st2" by (cases r) blast
        then have l2: "listed st2 = listed st1 @ new_listed st1 st2" by (simp add: grows_def Let_def)
        have l1: "listed st1 = listed st @ [dir]" by (simp add: st1_def)
        have l3: "listed st' = listed st1 @ new_listed st1 st2" using l l2 by simp
        have n: "new_listed st st' = dir # new_listed st1 st2"
          using new_listed_trans[OF l1 l3] by simp
        from "2.IH"(1)[OF refl nv st1_def Some] we
        have ih: "\<forall>q\<in>set (new_listed st1 st2).
            list_ex (\<lambda>d. isDirectory d \<and> q = path_join e dir (name d)) ds \<or>
            has_parent e (new_listed st1 st2) q" by blast
        show ?thesis
        proof
          fix q assume "q \<in> set (new_listed st st')"
          then consider "q = dir" | "q \<in> set (new_listed st1 st2)" using n by auto
          then show "q = dir \<or> has_parent e (new_listed st st') q"
          proof cases
            case 1
            then show ?thesis by simp
          next
            case 2
            with ih have "list_ex (\<lambda>d. isDirectory d \<and> q = path_join e dir (name d)) ds \<or>
                has_parent e (new_listed st1 st2) q" by blast
            then have "has_parent e (new_listed st st') q"
            proof
              assume "list_ex (\<lambda>d. isDirectory d \<and> q = path_join e dir (name d)) ds"
              then show ?thesis using Some n by (auto simp: has_parent_def)
            next
              assume "has_parent e (new_listed st1 st2) q"
              then show ?thesis by (rule has_parent_mono) (simp add: n subset_insertI)
            qed
            then show ?thesis by simp
          qed
        qed
      qed
    qed
  qed
next
  case (3 n e dir flags st)
  then show ?case by (simp add: new_listed_def)
next
  case (4 n e dir d ds hasMap hasElf st)
  show ?case
  proof (intro allI impI)
    fix r st'
    assume w: "walk_entries n e dir (d # ds) (hasMap, hasElf) st = Some (r, st')"
    let ?goal = "\<forall>q\<in>set (new_listed st st').
          list_ex (\<lambda>d. isDirectory d \<and> q = path_join e dir (name d)) (d # ds) \<or>
          has_parent e (new_listed st st') q"
    show ?goal
    proof (cases "isDirectory d")
      case True
      with w obtain st1 where w1: "walk n e (path_join e dir (name d)) st = Some st1"
        and w2: "walk_entries n e dir ds (hasMap, hasElf) st1 = Some (r, st')"
        by (auto simp: Let_def split: option.splits)
      from walk_grows[OF w1] have l1: "listed st1 = listed st @ new_listed st st1"
        by (simp add: grows_def Let_def)
      from walk_grows_aux(2) w2 have "grows e st1 st'" by (cases r) blast
      then have l2: "listed st' = listed st1 @ new_listed st1 st'" by (simp add: grows_def Let_def)
      have n: "new_listed st st' = new_listed st st1 @ new_listed st1 st'"
        using l1 l2 by (rule new_listed_trans)
      from "4.IH"(1)[OF refl True] w1
      have ih1: "\<forall>q\<in>set (new_listed st st1). q = path_join e dir (name d) \<or> has_parent e (new_listed st st1) q"
        by blast
      from "4.IH"(2)[OF refl True w1] w2
      have ih2: "\<forall>q\<in>set (new_listed st1 st').
          list_ex (\<lambda>d. isDirectory d \<and> q = path_join e dir (name d)) ds \<or>
          has_parent e (new_listed st1 st') q" by blast
      show ?thesis
      proof
        fix q assume "q \<in> set (new_listed st st')"
        then consider "q \<in> set (new_listed st st1)" | "q \<in> set (new_listed st1 st')" using n by auto
        then show "list_ex (\<lambda>d. isDirectory d \<and> q = path_join e dir (name d)) (d # ds) \<or>
          has_parent e (new_listed st st') q"
        proof cases
          case 1
          with ih1 have "q = path_join e dir (name d) \<or> has_parent e (new_listed st st1) q" by blast
          then show ?thesis
          proof
            assume "q = path_join e dir (name d)"
            then show ?thesis using True by simp
          next
            assume "has_parent e (new_listed st st1) q"
            then have "has_parent e (new_listed st st') q"
              by (rule has_parent_mono) (simp add: n)
            then show ?thesis by simp
          qed
        next
          case 2
          with ih2 have "list_ex (\<lambda>d. isDirectory d \<and> q = path_join e dir (name d)) ds \<or>
            has_parent e (new_listed st1 st') q" by blast
          then show ?thesis
          proof
            assume "list_ex (\<lambda>d. isDirectory d \<and> q = path_join e dir (name d)) ds"
            then show ?thesis by simp
          next
            assume "has_parent e (new_listed st1 st') q"
            then have "has_parent e (new_listed st st') q"
              by (rule has_parent_mono) (simp add: n)
            then show ?thesis by simp
          qed
        qed
      qed
    next
      case nd: False
      show ?thesis
      proof (cases "endsWith (name d) ''.map''")
        case True
        with w nd have "walk_entries n e dir ds (True, hasElf) st = Some (r, st')"
          by (simp add: Let_def)
        with "4.IH"(3)[OF refl nd True] show ?thesis by auto
      next
        case nm: False
        show ?thesis
        proof (cases "endsWith (name d) ''.elf''")
          case True
          with w nd nm have "walk_entries n e dir ds (hasMap, True) st = Some (r, st')"
            by (simp add: Let_def)
          with "4.IH"(4)[OF refl nd nm True] show ?thesis by auto
        next
          case False
          with w nd nm have "walk_entries n e dir ds (hasMap, hasElf) st = Some (r, st')"
            by (simp add: Let_def)
          with "4.IH"(5)[OF refl nd nm False] show ?thesis by auto
        qed
      qed
    qed
  qed
qed






lemma walk_total_aux:
  "depth_le n e dir \<longrightarrow> walk n e dir st \<noteq> None"
  "list_all (\<lambda>d. isDirectory d \<longrightarrow> depth_le n e (path_join e dir (name d))) ds \<longrightarrow>
     walk_entries n e dir ds fl st \<noteq> None"
proof (induction n e dir st and n e dir ds fl st rule: walk_walk_entries.induct)
  case (1 e dir st)
  then show ?case by simp
next
  case (2 n e dir st)
  show ?case
  proof
    assume d: "depth_le (Suc n) e dir"
    show "walk (Suc n) e dir st \<noteq> None"
    proof (cases "key_of e dir \<in> visited st")
      case True
      then show ?thesis by simp
    next
      case nv: False
      show ?thesis
      proof (cases "readdirSync e dir")
        case None
        then show ?thesis using nv by simp
      next
        case (Some ds)
        with d have "list_all (\<lambda>d. isDirectory d \<longrightarrow> depth_le n e (path_join e dir (name d))) ds"
          by simp
        with "2.IH"[OF refl nv refl Some]
        have "walk_entries n e dir ds (False, False)
                (st\<lparr>visited := insert (key_of e dir) (visited st), listed := listed st @ [dir]\<rparr>) \<noteq> None"
          by simp
        then show ?thesis using nv Some by (auto simp: Let_def split: option.splits prod.splits)
      qed
    qed
  qed
next
  case (3 n e dir flags st)
  then show ?case by simp
next
  case (4 n e dir d ds hasMap hasElf st)
  show ?case
  proof
    assume a: "list_all (\<lambda>d. isDirectory d \<longrightarrow> depth_le n e (path_join e dir (name d))) (d # ds)"
    then have a1: "isDirectory d \<longrightarrow> depth_le n e (path_join e dir (name d))"
      and a2: "list_all (\<lambda>d. isDirectory d \<longrightarrow> depth_le n e (path_join e dir (name d))) ds"
      by simp_all
    show "walk_entries n e dir (d # ds) (hasMap, hasElf) st \<noteq> None"
    proof (cases "isDirectory d")
      case True
      with "4.IH"(1)[OF refl True] a1 obtain st1 where
        w: "walk n e (path_join e dir (name d)) st = Some st1" by auto
      from "4.IH"(2)[OF refl True w] a2
      have "walk_entries n e dir ds (hasMap, hasElf) st1 \<noteq> None" by simp
      then show ?thesis using True w by simp
    next
      case nd: False
      show ?thesis
      proof (cases "endsWith (name d) ''.map''")
        case True
        with "4.IH"(3)[OF refl nd True] a2 nd show ?thesis by simp
      next
        case nm: False
        show ?thesis
        proof (cases "endsWith (name d) ''.elf''")
          case True
          with "4.IH"(4)[OF refl nd nm True] a2 nd nm show ?thesis by simp
        next
          case False
          with "4.IH"(5)[OF refl nd nm False] a2 nd nm show ?thesis by simp
        qed
      qed
    qed
  qed
qed

lemma walk_total: "depth_le n e dir \<Longrightarrow> \<exists>st'. walk n e dir st = Some st'"
  using walk_total_aux(1) by blast


lemma basename_elf: "endsWith b ''.elf'' \<Longrightarrow> basename b ''.elf'' = stem b"
  by (simp add: basename_def stem_def)

lemma find_eq: "find (\<lambda>m. m = x) ms = (if x \<in> set ms then Some x else None)"
  by (induction ms) auto

lemma pair_elfs_eq:
  "list_all (\<lambda>b. endsWith b ''.elf'') elfs \<Longrightarrow>
   pair_elfs e folder maps elfs items =
     items @ map (candidate e folder) (filter (\<lambda>b. stem b @ ''.map'' \<in> set maps) elfs)"
proof (induction elfs arbitrary: items)
  case Nil
  then show ?case by simp
next
  case (Cons b elfs)
  then have b: "basename b ''.elf'' = stem b" and r: "list_all (\<lambda>b. endsWith b ''.elf'') elfs"
    by (simp_all add: basename_elf)
  show ?case
    by (simp add: b find_eq Cons.IH[OF r] candidate_def Let_def)
qed

lemma endsWith_append: "endsWith (s @ t) t"
  by (simp add: endsWith_def)

lemma map_mem_maps:
  "stem b @ ''.map'' \<in> set (filter (\<lambda>f. endsWith f ''.map'') files) \<longleftrightarrow> stem b @ ''.map'' \<in> set files"
  by (simp add: endsWith_append)

lemma pair_folder_eq:
  "pair_elfs e folder (filter (\<lambda>f. endsWith f ''.map'') files)
     (filter (\<lambda>f. endsWith f ''.elf'') files) items = items @ candidates_in e folder files"
proof -
  have e: "list_all (\<lambda>b. endsWith b ''.elf'') (filter (\<lambda>f. endsWith f ''.elf'') files)"
    by (simp add: list_all_iff)
  have "filter (\<lambda>b. stem b @ ''.map'' \<in> set (filter (\<lambda>f. endsWith f ''.map'') files))
          (filter (\<lambda>f. endsWith f ''.elf'') files) = filter (paired files) files"
    by (simp add: endsWith_append paired_def[abs_def] cong: conj_cong)
  with pair_elfs_eq[OF e] show ?thesis
    by (simp add: candidates_in_def)
qed

lemma collect_items_eq:
  "list_all (\<lambda>f. readdirSync e f \<noteq> None) folders \<Longrightarrow>
   collect_items e folders items tr = (Inr (items @ all_candidates e folders), tr @ folders)"
proof (induction folders arbitrary: items tr)
  case Nil
  then show ?case by (simp add: all_candidates_def)
next
  case (Cons f folders)
  then obtain ds where ds: "readdirSync e f = Some ds" by auto
  from Cons.prems have r: "list_all (\<lambda>f. readdirSync e f \<noteq> None) folders" by simp
  show ?case
    by (simp add: ds Let_def pair_folder_eq Cons.IH[OF r] all_candidates_def names_in_def)
qed


lemma walk_common_filter:
  "walk_common n e cs st = walk_list n e (filter (existsSync e) cs) st"
  by (induction cs arbitrary: st) (simp_all split: option.splits)

lemma colocated_readable: "colocated e D \<Longrightarrow> readdirSync e D \<noteq> None"
  by (auto simp: colocated_def split: option.splits)

lemma found_colocated:
  "findBuildFolders n e root = Some st \<Longrightarrow> set (found st) = {D \<in> set (listed st). colocated e D}"
  using findBuildFolders_grows grows_init(3) by blast

lemma found_readable:
  assumes "findBuildFolders n e root = Some st"
  shows "list_all (\<lambda>f. readdirSync e f \<noteq> None) (found st)"
  using found_colocated[OF assms] colocated_readable by (auto simp: list_all_iff)




lemma select_item_cases:
  "select_item e [] tr = (Inl NoMatchingArtifactsError, \<lparr>listings = tr, prompts = [], notices = []\<rparr>)"
  "select_item e [c] tr =
     finish e (map_file c) (elf c) \<lparr>listings = tr, prompts = [], notices = []\<rparr>"
  "select_item e (c # c' # cs) tr =
     (case showQuickPick e (c # c' # cs) of
        None \<Rightarrow> (Inl SelectionCancelledError,
                 \<lparr>listings = tr, prompts = [c # c' # cs], notices = []\<rparr>)
      | Some pick \<Rightarrow> finish e (map_file pick) (elf pick)
                 \<lparr>listings = tr, prompts = [c # c' # cs], notices = []\<rparr>)"
  by (simp_all add: select_item_def)

lemma finish_eq:
  "finish e m b fx =
     (Inr \<lparr>map_path = m, elf_path = b, toolchainPath = fst (getToolchainPath e)\<rparr>,
      fx\<lparr>notices := notices fx @ snd (getToolchainPath e)\<rparr>)"
  by (simp add: finish_def split: prod.splits)

lemma walk_same_fs_aux:
  "same_fs e' e \<longrightarrow> walk n e' dir st = walk n e dir st"
  "same_fs e' e \<longrightarrow> walk_entries n e' dir ds fl st = walk_entries n e dir ds fl st"
proof (induction n e dir st and n e dir ds fl st rule: walk_walk_entries.induct)
  case (1 e dir st)
  then show ?case by simp
next
  case (2 n e dir st)
  show ?case
  proof
    assume s: "same_fs e' e"
    then have k: "key_of e' = key_of e" and r: "readdirSync e' = readdirSync e"
      by (auto simp: same_fs_def key_of_def fun_eq_iff)
    show "walk (Suc n) e' dir st = walk (Suc n) e dir st"
    proof (cases "key_of e dir \<in> visited st")
      case True
      then show ?thesis by (simp add: k)
    next
      case nv: False
      show ?thesis
      proof (cases "readdirSync e dir")
        case None
        then show ?thesis using nv by (simp add: k r)
      next
        case (Some ds)
        from "2.IH"[OF refl nv refl Some] s
        have "walk_entries n e' dir ds (False, False)
                (st\<lparr>visited := insert (key_of e dir) (visited st), listed := listed st @ [dir]\<rparr>) =
              walk_entries n e dir ds (False, False)
                (st\<lparr>visited := insert (key_of e dir) (visited st), listed := listed st @ [dir]\<rparr>)"
          by simp
        then show ?thesis using nv Some by (simp add: k r)
      qed
    qed
  qed
next
  case (3 n e dir flags st)
  then show ?case by simp
next
  case (4 n e dir d ds hasMap hasElf st)
  show ?case
  proof
    assume s: "same_fs e' e"
    then have j: "path_join e' = path_join e" by (simp add: same_fs_def)
    show "walk_entries n e' dir (d # ds) (hasMap, hasElf) st =
          walk_entries n e dir (d # ds) (hasMap, hasElf) st"
    proof (cases "isDirectory d")
      case True
      from "4.IH"(1)[OF refl True] s
      have w: "walk n e' (path_join e dir (name d)) st = walk n e (path_join e dir (name d)) st"
        by simp
      show ?thesis
      proof (cases "walk n e (path_join e dir (name d)) st")
        case None
        then show ?thesis using True w by (simp add: j)
      next
        case (Some st1)
        from "4.IH"(2)[OF refl True Some] s
        have "walk_entries n e' dir ds (hasMap, hasElf) st1 =
              walk_entries n e dir ds (hasMap, hasElf) st1" by simp
        then show ?thesis using True w Some by (simp add: j)
      qed
    next
      case nd: False
      show ?thesis
      proof (cases "endsWith (name d) ''.map''")
        case True
        with "4.IH"(3)[OF refl nd True] s nd show ?thesis by (simp add: j)
      next
        case nm: False
        show ?thesis
        proof (cases "endsWith (name d) ''.elf''")
          case True
          with "4.IH"(4)[OF refl nd nm True] s nd nm show ?thesis by (simp add: j)
        next
          case False
          with "4.IH"(5)[OF refl nd nm False] s nd nm show ?thesis by (simp add: j)
        qed
      qed
    qed
  qed
qed

lemma walk_same_fs: "same_fs e' e \<Longrightarrow> walk n e' dir st = walk n e dir st"
  using walk_same_fs_aux(1) by blast

lemma walk_common_same_fs:
  "same_fs e' e \<Longrightarrow> walk_common n e' cs st = walk_common n e cs st"
proof (induction cs arbitrary: st)
  case Nil
  then show ?case by simp
next
  case (Cons c cs)
  from Cons.prems have x: "existsSync e' = existsSync e" by (simp add: same_fs_def)
  show ?case
    by (simp add: x walk_same_fs[OF Cons.prems] Cons.IH[OF Cons.prems] split: option.splits)
qed

lemma findBuildFolders_same_fs:
  assumes "same_fs e' e"
  shows "findBuildFolders n e' root = findBuildFolders n e root"
proof -
  from assms have j: "path_join e' = path_join e" by (simp add: same_fs_def)
  show ?thesis
    by (simp add: findBuildFolders_def j walk_common_same_fs[OF assms] walk_same_fs[OF assms]
        split: option.splits)
qed

lemma pair_elfs_same_fs:
  "path_join e' = path_join e \<Longrightarrow> asRelativePath e' = asRelativePath e \<Longrightarrow>
   pair_elfs e' folder maps elfs items = pair_elfs e folder maps elfs items"
  by (induction elfs arbitrary: items) (simp_all add: Let_def split: option.splits)

lemma collect_items_same_fs:
  assumes "same_fs e' e"
  shows "collect_items e' folders items tr = collect_items e folders items tr"
proof -
  from assms have r: "readdirSync e' = readdirSync e" and j: "path_join e' = path_join e"
    and a: "asRelativePath e' = asRelativePath e" by (simp_all add: same_fs_def)
  show ?thesis
    by (induction folders arbitrary: items tr)
      (simp_all add: r Let_def pair_elfs_same_fs[OF j a] split: option.splits)
qed


text \<open>
  Claim C1. When both explicit settings are set (defined and not empty) and both files
  pass the readability test, \<open>resolve\<close> returns exactly the two configured strings,
  lists no directory and shows no prompt, whatever the depth bound; the workspace
  folders and the file system tree are not consulted: replacing them by anything else
  leaves the result unchanged.
\<close>

theorem resolve_fast_path:
  assumes "mapFilePath e = Some m" and "elfFilePath e = Some b"
    and "m \<noteq> []" and "b \<noteq> []" and "exists e m" and "exists e b"
  shows "resolve n e =
           Some (Inr \<lparr>map_path = m, elf_path = b, toolchainPath = fst (getToolchainPath e)\<rparr>,
                 \<lparr>listings = [], prompts = [], notices = snd (getToolchainPath e)\<rparr>) \<and>
         (\<forall>w r x. resolve n (e\<lparr>workspaceFolders := w, readdirSync := r, existsSync := x\<rparr>) =
                  resolve n e)"
proof -
  have f: "fast_path e = Some (m, b)" using assms by (simp add: fast_path_def)
  have g: "\<And>w r x. fast_path (e\<lparr>workspaceFolders := w, readdirSync := r, existsSync := x\<rparr>) = Some (m, b)"
    using assms by (simp add: fast_path_def exists_def)
  have t: "\<And>w r x. getToolchainPath (e\<lparr>workspaceFolders := w, readdirSync := r, existsSync := x\<rparr>) =
      getToolchainPath e"
    by (simp add: getToolchainPath_def exists_def split: option.splits)
  show ?thesis
    by (simp add: resolve_def f g finish_eq t no_effects_def)
qed

text \<open>
  The theorem at \<open>fast_env\<close>, whose workspace holds a valid pair in \<^verbatim>\<open>/w/build\<close>
  that the search finds once the map setting is removed.
\<close>

theorem resolve_fast_path_witness:
  "mapFilePath fast_env = Some ''/cfg/fw.map'' \<and> elfFilePath fast_env = Some ''/cfg/fw.elf'' \<and>
   exists fast_env ''/cfg/fw.map'' \<and> exists fast_env ''/cfg/fw.elf'' \<and>
   resolve 0 fast_env =
     Some (Inr \<lparr>map_path = ''/cfg/fw.map'', elf_path = ''/cfg/fw.elf'', toolchainPath = None\<rparr>,
           \<lparr>listings = [], prompts = [], notices = []\<rparr>) \<and>
   resolve 2 (fast_env\<lparr>mapFilePath := None\<rparr>) =
     Some (Inr \<lparr>map_path = ''/w/build/app.map'', elf_path = ''/w/build/app.elf'',
                toolchainPath = None\<rparr>,
           \<lparr>listings = [''/w/build'', ''/w/build''], prompts = [], notices = []\<rparr>)"
proof -
  have h: "mapFilePath fast_env = Some ''/cfg/fw.map''" "elfFilePath fast_env = Some ''/cfg/fw.elf''"
    "''/cfg/fw.map'' \<noteq> []" "''/cfg/fw.elf'' \<noteq> []"
    "exists fast_env ''/cfg/fw.map''" "exists fast_env ''/cfg/fw.elf''"
    by (simp_all add: fast_env_def build_env_def base_env_def exists_def)
  have t: "getToolchainPath fast_env = (None, [])" by code_simp
  have s: "resolve 2 (fast_env\<lparr>mapFilePath := None\<rparr>) =
     Some (Inr \<lparr>map_path = ''/w/build/app.map'', elf_path = ''/w/build/app.elf'',
                toolchainPath = None\<rparr>,
           \<lparr>listings = [''/w/build'', ''/w/build''], prompts = [], notices = []\<rparr>)"
    by code_simp
  from resolve_fast_path[OF h, of 0] h t s show ?thesis by simp
qed

text \<open>
  Claim C5, as stated, fails: \<^verbatim>\<open>/w/build\<close> is a symbolic link to \<^verbatim>\<open>/w/out\<close>. Both
  are conventional folder names, both exist, and the one directory is recorded twice,
  once under each path.
\<close>

theorem found_once_counterexample:
  "map_option found (findBuildFolders 2 symlink_env ''/w'') = Some [''/w/build'', ''/w/out''] \<and>
   realpath symlink_env ''/w/build'' = realpath symlink_env ''/w/out''"
  by code_simp

text \<open>
  Claim C5, amended. The identity of a directory is its key: the path string,
  lower-cased on a platform taken to be case-insensitive. No key is listed twice in one
  walk, nor in one call of \<open>findBuildFolders\<close>; the found folders are pairwise distinct
  paths with pairwise distinct keys. Two different path strings that denote one
  directory are two identities.
\<close>

theorem found_once_per_key:
  assumes "findBuildFolders n e root = Some st" and "walk n e dir s = Some s'"
  shows "distinct (map (key_of e) (listed st)) \<and> distinct (found st) \<and>
         distinct (map (key_of e) (found st)) \<and>
         distinct (map (key_of e) (new_listed s s')) \<and>
         key_of e ` set (new_listed s s') \<inter> visited s = {}"
proof -
  from findBuildFolders_grows[OF assms(1)] have g: "grows e init_wstate st" .
  have a: "distinct (map (key_of e) (listed st))" using grows_init(1)[OF g] .
  have b: "distinct (found st)" using findBuildFolders_distinct[OF assms(1)] .
  have "set (found st) \<subseteq> set (listed st)" using grows_init(3)[OF g] by auto
  with a b have c: "distinct (map (key_of e) (found st))" by (rule distinct_map_subset)
  from walk_grows[OF assms(2)] have "distinct (map (key_of e) (new_listed s s'))"
    and "key_of e ` set (new_listed s s') \<inter> visited s = {}"
    by (simp_all add: grows_def Let_def)
  with a b c show ?thesis by simp
qed

text \<open>
  The amended claim at the environment of the counterexample, and at \<open>ci_env\<close>, a
  case-insensitive platform on which \<^verbatim>\<open>/w/build\<close> and \<^verbatim>\<open>/w/Build\<close> name one
  folder: the second is skipped by its key.
\<close>

theorem found_once_per_key_witness:
  "map_option found (findBuildFolders 2 ci_env ''/w'') = Some [''/w/build''] \<and>
   key_of ci_env ''/w/Build'' = key_of ci_env ''/w/build'' \<and>
   map_option found (findBuildFolders 2 symlink_env ''/w'') = Some [''/w/build'', ''/w/out''] \<and>
   map_option listed (walk 2 symlink_env ''/w'' init_wstate) = Some [''/w'', ''/w/out''] \<and>
   distinct (map (key_of symlink_env) [''/w/build'', ''/w/out'']) \<and>
   distinct (map (key_of symlink_env) [''/w'', ''/w/out''])"
proof -
  have f: "map_option found (findBuildFolders 2 symlink_env ''/w'') = Some [''/w/build'', ''/w/out'']"
    by code_simp
  have l: "map_option listed (walk 2 symlink_env ''/w'' init_wstate) = Some [''/w'', ''/w/out'']"
    by code_simp
  from f obtain S where a: "findBuildFolders 2 symlink_env ''/w'' = Some S" by auto
  from l obtain T where b: "walk 2 symlink_env ''/w'' init_wstate = Some T" by auto
  from f a have S: "found S = [''/w/build'', ''/w/out'']" by simp
  from l b have T: "new_listed init_wstate T = [''/w'', ''/w/out'']"
    by (simp add: new_listed_def init_wstate_def)
  from found_once_per_key[OF a b] S T
  have "distinct (map (key_of symlink_env) [''/w/build'', ''/w/out'']) \<and>
        distinct (map (key_of symlink_env) [''/w'', ''/w/out''])" by simp
  moreover have "map_option found (findBuildFolders 2 ci_env ''/w'') = Some [''/w/build'']"
    "key_of ci_env ''/w/Build'' = key_of ci_env ''/w/build''"
    by code_simp+
  ultimately show ?thesis using f l by simp
qed

text \<open>
  Claim C4. \<open>findBuildFolders\<close> walks, in the order build, Build, Release, Debug, out,
  output, those of the six subfolders of the root that exist, and then walks the root
  itself exactly when these walks found no folder.
\<close>

theorem findBuildFolders_priority:
  "findBuildFolders n e root =
     (case walk_list n e
             (filter (existsSync e)
                (map (path_join e root)
                   [''build'', ''Build'', ''Release'', ''Debug'', ''out'', ''output'']))
             init_wstate of
        None \<Rightarrow> None
      | Some st1 \<Rightarrow> if found st1 = [] then walk n e root st1 else Some st1)"
  by (simp add: findBuildFolders_def walk_common_filter common_names_def)

text \<open>
  The theorem at \<open>build_env\<close>, where \<^verbatim>\<open>/w/build\<close> exists and holds a pair, so that the
  root is not listed, and at \<open>nested_env\<close>, where no conventional folder exists and the
  root is walked.
\<close>

theorem findBuildFolders_priority_witness:
  "map_option listed (findBuildFolders 2 build_env ''/w'') = Some [''/w/build''] \<and>
   map_option listed (findBuildFolders 2 nested_env ''/w'') = Some [''/w'', ''/w/sub''] \<and>
   filter (existsSync build_env)
     (map (path_join build_env ''/w'')
        [''build'', ''Build'', ''Release'', ''Debug'', ''out'', ''output'']) = [''/w/build''] \<and>
   map_option found (walk_list 2 build_env [''/w/build''] init_wstate) = Some [''/w/build'']"
proof -
  have a: "filter (existsSync build_env)
     (map (path_join build_env ''/w'')
        [''build'', ''Build'', ''Release'', ''Debug'', ''out'', ''output'']) = [''/w/build'']"
    by code_simp
  have b: "map_option found (walk_list 2 build_env [''/w/build''] init_wstate) = Some [''/w/build'']"
    by code_simp
  have c: "map_option listed (walk_list 2 build_env [''/w/build''] init_wstate) = Some [''/w/build'']"
    by code_simp
  from b obtain S where s: "walk_list 2 build_env [''/w/build''] init_wstate = Some S" by auto
  with b c have S: "found S = [''/w/build'']" "listed S = [''/w/build'']" by simp_all
  have "map_option listed (findBuildFolders 2 build_env ''/w'') = Some [''/w/build'']"
    using findBuildFolders_priority[of 2 build_env "''/w''"] a s S by simp
  moreover have "map_option listed (findBuildFolders 2 nested_env ''/w'') = Some [''/w'', ''/w/sub'']"
    by code_simp
  ultimately show ?thesis using a b by simp
qed










lemma retool_select_item:
  "select_item e items tr = retool e (select_item (e\<lparr>cfg_toolchainPath := None\<rparr>) items tr)"
  by (simp add: select_item_def finish_def getToolchainPath_def retool_def
      split: list.splits option.splits prod.splits)

lemma retool_finish:
  "finish e m b no_effects = retool e (finish (e\<lparr>cfg_toolchainPath := None\<rparr>) m b no_effects)"
  by (simp add: finish_def getToolchainPath_def retool_def no_effects_def
      split: option.splits prod.splits)

lemma resolve_retool:
  "resolve n e = map_option (retool e) (resolve n (e\<lparr>cfg_toolchainPath := None\<rparr>))"
proof -
  let ?e0 = "e\<lparr>cfg_toolchainPath := None\<rparr>"
  have s: "same_fs ?e0 e" by (simp add: same_fs_def)
  have f: "fast_path ?e0 = fast_path e"
    by (simp add: fast_path_def exists_def split: option.splits)
  have w: "workspaceFolders ?e0 = workspaceFolders e" by simp
  have err: "\<And>err fx. retool e (Inl err, fx) = (Inl err, fx)" by (simp add: retool_def)
  show ?thesis
  proof (cases "fast_path e")
    case (Some a)
    then show ?thesis by (cases a) (simp add: resolve_def f retool_finish[symmetric])
  next
    case None
    show ?thesis
    proof (cases "workspaceFolders e")
      case n: None
      with None show ?thesis by (simp add: resolve_def f err)
    next
      case (Some ws)
      show ?thesis
      proof (cases ws)
        case Nil
        with None Some show ?thesis by (simp add: resolve_def f err)
      next
        case (Cons root others)
        show ?thesis
        proof (cases "findBuildFolders n e root")
          case n: None
          with None Some Cons show ?thesis
            by (simp add: resolve_def f findBuildFolders_same_fs[OF s])
        next
          case st: (Some st)
          with None Some Cons show ?thesis
            by (simp add: resolve_def f findBuildFolders_same_fs[OF s]
                collect_items_same_fs[OF s] err retool_select_item[symmetric]
                split: prod.splits sum.splits)
        qed
      qed
    qed
  qed
qed

text \<open>
  Claim C9. \<open>getToolchainPath\<close> returns no path and shows nothing when the setting is
  absent; returns no path and shows one warning when the configured path is not
  readable; returns the path and shows one information message when it is. It has no
  failing branch: \<open>resolve\<close> is what it is without the setting, but for the toolchain
  field and the notices of a successful result, so that the setting never turns a
  success into a failure.
\<close>

theorem toolchain_never_fails:
  "(cfg_toolchainPath e = None \<longrightarrow> getToolchainPath e = (None, [])) \<and>
   (\<forall>t. cfg_toolchainPath e = Some t \<and> t \<noteq> [] \<and> \<not> exists e t \<longrightarrow>
      getToolchainPath e =
        (None, [Warning (''STM32 Build Analyzer: toolchainPath not found: '' @ t)])) \<and>
   (\<forall>t. cfg_toolchainPath e = Some t \<and> t \<noteq> [] \<and> exists e t \<longrightarrow>
      getToolchainPath e =
        (Some t, [Information (''STM32 Build Analyzer: Using toolchain from '' @ t)])) \<and>
   resolve n e = map_option (retool e) (resolve n (e\<lparr>cfg_toolchainPath := None\<rparr>))"
  using resolve_retool[of n e] by (simp add: getToolchainPath_def)

text \<open>
  The theorem at \<open>tool_env\<close>, whose toolchain path is not readable: a warning, no
  toolchain in the result, the pair of \<open>build_env\<close> returned all the same.
\<close>

theorem toolchain_never_fails_witness:
  "cfg_toolchainPath tool_env = Some ''/opt/gcc'' \<and> \<not> exists tool_env ''/opt/gcc'' \<and>
   getToolchainPath tool_env =
     (None, [Warning ''STM32 Build Analyzer: toolchainPath not found: /opt/gcc'']) \<and>
   resolve 2 (tool_env\<lparr>cfg_toolchainPath := None\<rparr>) =
     Some (Inr \<lparr>map_path = ''/w/build/app.map'', elf_path = ''/w/build/app.elf'',
                toolchainPath = None\<rparr>,
           \<lparr>listings = [''/w/build'', ''/w/build''], prompts = [], notices = []\<rparr>) \<and>
   resolve 2 tool_env =
     Some (Inr \<lparr>map_path = ''/w/build/app.map'', elf_path = ''/w/build/app.elf'',
                toolchainPath = None\<rparr>,
           \<lparr>listings = [''/w/build'', ''/w/build''], prompts = [],
              notices = [Warning ''STM32 Build Analyzer: toolchainPath not found: /opt/gcc'']\<rparr>)"
proof -
  have c: "cfg_toolchainPath tool_env = Some ''/opt/gcc''" by (simp add: tool_env_def)
  have x: "\<not> exists tool_env ''/opt/gcc''" by code_simp
  have r0: "resolve 2 (tool_env\<lparr>cfg_toolchainPath := None\<rparr>) =
     Some (Inr \<lparr>map_path = ''/w/build/app.map'', elf_path = ''/w/build/app.elf'',
                toolchainPath = None\<rparr>,
           \<lparr>listings = [''/w/build'', ''/w/build''], prompts = [], notices = []\<rparr>)"
    by code_simp
  from toolchain_never_fails[of tool_env 2] c x
  have g: "getToolchainPath tool_env =
     (None, [Warning (''STM32 Build Analyzer: toolchainPath not found: '' @ ''/opt/gcc'')])"
    and r: "resolve 2 tool_env =
      map_option (retool tool_env) (resolve 2 (tool_env\<lparr>cfg_toolchainPath := None\<rparr>))"
    by simp_all
  from r r0 g have "resolve 2 tool_env =
     Some (Inr \<lparr>map_path = ''/w/build/app.map'', elf_path = ''/w/build/app.elf'',
                toolchainPath = None\<rparr>,
           \<lparr>listings = [''/w/build'', ''/w/build''], prompts = [],
              notices = [Warning ''STM32 Build Analyzer: toolchainPath not found: /opt/gcc'']\<rparr>)"
    by (simp add: retool_def)
  with c x g r0 show ?thesis by simp
qed

lemma grows_listed: "grows e st st' \<Longrightarrow> listed st' = listed st @ new_listed st st'"
  by (simp add: grows_def Let_def)

lemma grows_visited: "grows e st st' \<Longrightarrow> visited st' = visited st \<union> key_of e ` set (new_listed st st')"
  by (simp add: grows_def Let_def)

lemma grows_visited_mono: "grows e st st' \<Longrightarrow> visited st \<subseteq> visited st'"
  by (auto simp: grows_def Let_def)

lemma walk_entries_grows:
  "walk_entries n e dir ds fl st = Some (r, st') \<Longrightarrow> grows e st st'"
  using walk_grows_aux(2)[of n e dir ds fl st] by (cases r) blast

lemma walk_entries_flags:
  "walk_entries n e dir ds (False, False) st = Some ((hm, he), st') \<Longrightarrow>
   (hm \<and> he) = (has_file ''.elf'' ds \<and> has_file ''.map'' ds)"
  using walk_grows_aux(2)[of n e dir ds "(False, False)" st] by auto

lemma walk_unvisited:
  assumes "walk n e dir st = Some st'" and "key_of e dir \<notin> visited st"
  shows "\<exists>m st1.
           n = Suc m \<and>
           st1 = st\<lparr>visited := insert (key_of e dir) (visited st), listed := listed st @ [dir]\<rparr> \<and>
           (case readdirSync e dir of
              None \<Rightarrow> st' = st1
            | Some ds \<Rightarrow>
                (\<exists>hm he st2.
                   walk_entries m e dir ds (False, False) st1 = Some ((hm, he), st2) \<and>
                   st' = (if hm \<and> he then st2\<lparr>found := set_add dir (found st2)\<rparr> else st2)))"
proof (cases n)
  case 0
  with assms show ?thesis by simp
next
  case (Suc m)
  define st1 where "st1 = st\<lparr>visited := insert (key_of e dir) (visited st), listed := listed st @ [dir]\<rparr>"
  show ?thesis
  proof (cases "readdirSync e dir")
    case None
    with assms Suc have "st' = st1" by (simp add: st1_def)
    with Suc None show ?thesis by (simp add: st1_def)
  next
    case (Some ds)
    show ?thesis
    proof (cases "walk_entries m e dir ds (False, False) st1")
      case None
      with assms Suc Some show ?thesis by (simp add: st1_def)
    next
      case r: (Some r)
      obtain hm he st2 where r': "r = ((hm, he), st2)" by (cases r) auto
      with assms Suc Some r
      have "st' = (if hm \<and> he then st2\<lparr>found := set_add dir (found st2)\<rparr> else st2)"
        by (simp add: st1_def)
      with Suc Some r r' show ?thesis unfolding st1_def by simp
    qed
  qed
qed

lemma walk_lists_start:
  assumes "walk n e dir st = Some st'" and "key_of e dir \<notin> visited st"
  shows "\<exists>rest. new_listed st st' = dir # rest"
proof -
  from walk_unvisited[OF assms] obtain m st1 where
    st1: "st1 = st\<lparr>visited := insert (key_of e dir) (visited st), listed := listed st @ [dir]\<rparr>"
    and c: "case readdirSync e dir of
              None \<Rightarrow> st' = st1
            | Some ds \<Rightarrow>
                (\<exists>hm he st2.
                   walk_entries m e dir ds (False, False) st1 = Some ((hm, he), st2) \<and>
                   st' = (if hm \<and> he then st2\<lparr>found := set_add dir (found st2)\<rparr> else st2))"
    by blast
  have l1: "listed st1 = listed st @ [dir]" by (simp add: st1)
  show ?thesis
  proof (cases "readdirSync e dir")
    case None
    with c have "st' = st1" by simp
    then show ?thesis by (simp add: st1 new_listed_def)
  next
    case (Some ds)
    with c obtain hm he st2 where
      we: "walk_entries m e dir ds (False, False) st1 = Some ((hm, he), st2)"
      and st': "st' = (if hm \<and> he then st2\<lparr>found := set_add dir (found st2)\<rparr> else st2)"
      by auto
    from grows_listed[OF walk_entries_grows[OF we]]
    have l2: "listed st2 = listed st1 @ new_listed st1 st2" .
    have "listed st' = listed st2" by (simp add: st')
    with l2 have l3: "listed st' = listed st1 @ new_listed st1 st2" by simp
    from new_listed_trans[OF l1 l3] show ?thesis by simp
  qed
qed

lemma walk_visits_start:
  assumes "walk n e dir st = Some st'"
  shows "key_of e dir \<in> visited st'"
proof (cases "key_of e dir \<in> visited st")
  case True
  with grows_visited_mono[OF walk_grows[OF assms]] show ?thesis by blast
next
  case False
  from walk_lists_start[OF assms False] obtain rest where "new_listed st st' = dir # rest" by blast
  with grows_visited[OF walk_grows[OF assms]] show ?thesis by simp
qed

lemma children_visited_mono:
  "children_visited e new V \<Longrightarrow> V \<subseteq> W \<Longrightarrow> children_visited e new W"
  by (auto simp: children_visited_def list_all_iff split: option.splits)

lemma children_visited_append:
  "children_visited e (a @ b) V \<longleftrightarrow> children_visited e a V \<and> children_visited e b V"
  by (simp add: children_visited_def)

lemma children_visited_Nil: "children_visited e [] V"
  by (simp add: children_visited_def)

lemma walk_children_aux:
  "(\<forall>st'. walk n e dir st = Some st' \<longrightarrow> children_visited e (new_listed st st') (visited st'))"
  "(\<forall>r st'. walk_entries n e dir ds fl st = Some (r, st') \<longrightarrow>
      children_visited e (new_listed st st') (visited st') \<and>
      list_all (\<lambda>d. isDirectory d \<longrightarrow> key_of e (path_join e dir (name d)) \<in> visited st') ds)"
proof (induction n e dir st and n e dir ds fl st rule: walk_walk_entries.induct)
  case (1 e dir st)
  then show ?case by simp
next
  case (2 n e dir st)
  show ?case
  proof (intro allI impI)
    fix st' assume w: "walk (Suc n) e dir st = Some st'"
    show "children_visited e (new_listed st st') (visited st')"
    proof (cases "key_of e dir \<in> visited st")
      case True
      with w show ?thesis by (simp add: new_listed_def children_visited_Nil)
    next
      case nv: False
      define st1 where "st1 = st\<lparr>visited := insert (key_of e dir) (visited st), listed := listed st @ [dir]\<rparr>"
      have l1: "listed st1 = listed st @ [dir]" by (simp add: st1_def)
      show ?thesis
      proof (cases "readdirSync e dir")
        case None
        with w nv have "st' = st1" by (simp add: st1_def)
        then show ?thesis using None by (simp add: st1_def new_listed_def children_visited_def)
      next
        case (Some ds)
        with w nv obtain r st2 where
          we: "walk_entries n e dir ds (False, False) st1 = Some (r, st2)"
          and l: "listed st' = listed st2" and v: "visited st' = visited st2"
          by (auto simp: st1_def Let_def split: option.splits prod.splits if_splits)
        from grows_listed[OF walk_entries_grows[OF we]]
        have l2: "listed st2 = listed st1 @ new_listed st1 st2" .
        have l3: "listed st' = listed st1 @ new_listed st1 st2" using l l2 by simp
        have n: "new_listed st st' = [dir] @ new_listed st1 st2"
          using new_listed_trans[OF l1 l3] by simp
        from "2.IH"[OF refl nv st1_def Some] we
        have ih: "children_visited e (new_listed st1 st2) (visited st2)"
          and ch: "list_all (\<lambda>d. isDirectory d \<longrightarrow> key_of e (path_join e dir (name d)) \<in> visited st2) ds"
          by blast+
        from ch Some have "children_visited e [dir] (visited st2)"
          by (simp add: children_visited_def)
        with ih show ?thesis by (simp add: n v children_visited_def)
      qed
    qed
  qed
next
  case (3 n e dir flags st)
  then show ?case by (simp add: new_listed_def children_visited_Nil)
next
  case (4 n e dir d ds hasMap hasElf st)
  show ?case
  proof (intro allI impI)
    fix r st'
    assume w: "walk_entries n e dir (d # ds) (hasMap, hasElf) st = Some (r, st')"
    let ?ch = "\<lambda>V. list_all (\<lambda>d. isDirectory d \<longrightarrow> key_of e (path_join e dir (name d)) \<in> V)"
    show "children_visited e (new_listed st st') (visited st') \<and> ?ch (visited st') (d # ds)"
    proof (cases "isDirectory d")
      case True
      with w obtain st1 where w1: "walk n e (path_join e dir (name d)) st = Some st1"
        and w2: "walk_entries n e dir ds (hasMap, hasElf) st1 = Some (r, st')"
        by (auto simp: Let_def split: option.splits)
      have g2: "grows e st1 st'" using w2 by (rule walk_entries_grows)
      have l1: "listed st1 = listed st @ new_listed st st1" using walk_grows[OF w1] by (rule grows_listed)
      have l2: "listed st' = listed st1 @ new_listed st1 st'" using g2 by (rule grows_listed)
      have n: "new_listed st st' = new_listed st st1 @ new_listed st1 st'"
        using l1 l2 by (rule new_listed_trans)
      have m: "visited st1 \<subseteq> visited st'" using g2 by (rule grows_visited_mono)
      from "4.IH"(1)[OF refl True] w1
      have "children_visited e (new_listed st st1) (visited st1)" by blast
      then have c1: "children_visited e (new_listed st st1) (visited st')"
        using m by (rule children_visited_mono)
      from "4.IH"(2)[OF refl True w1] w2
      have c2: "children_visited e (new_listed st1 st') (visited st')"
        and ch: "?ch (visited st') ds" by blast+
      have "key_of e (path_join e dir (name d)) \<in> visited st'"
        using walk_visits_start[OF w1] m by blast
      with c1 c2 ch show ?thesis by (simp add: n children_visited_append)
    next
      case nd: False
      show ?thesis
      proof (cases "endsWith (name d) ''.map''")
        case True
        with w nd have "walk_entries n e dir ds (True, hasElf) st = Some (r, st')"
          by (simp add: Let_def)
        with "4.IH"(3)[OF refl nd True] nd show ?thesis by auto
      next
        case nm: False
        show ?thesis
        proof (cases "endsWith (name d) ''.elf''")
          case True
          with w nd nm have "walk_entries n e dir ds (hasMap, True) st = Some (r, st')"
            by (simp add: Let_def)
          with "4.IH"(4)[OF refl nd nm True] nd show ?thesis by auto
        next
          case False
          with w nd nm have "walk_entries n e dir ds (hasMap, hasElf) st = Some (r, st')"
            by (simp add: Let_def)
          with "4.IH"(5)[OF refl nd nm False] nd show ?thesis by auto
        qed
      qed
    qed
  qed
qed

lemma walk_children:
  "walk n e dir st = Some st' \<Longrightarrow> children_visited e (new_listed st st') (visited st')"
  using walk_children_aux(1) by blast

lemma set_add_prefix: "\<exists>add. set_add x xs = xs @ add"
  by (simp add: set_add_def)

lemma walk_found_prefix_aux:
  "(\<forall>st'. walk n e dir st = Some st' \<longrightarrow> (\<exists>add. found st' = found st @ add))"
  "(\<forall>r st'. walk_entries n e dir ds fl st = Some (r, st') \<longrightarrow> (\<exists>add. found st' = found st @ add))"
proof (induction n e dir st and n e dir ds fl st rule: walk_walk_entries.induct)
  case (1 e dir st)
  then show ?case by simp
next
  case (2 n e dir st)
  show ?case
  proof (intro allI impI)
    fix st' assume w: "walk (Suc n) e dir st = Some st'"
    show "\<exists>add. found st' = found st @ add"
    proof (cases "key_of e dir \<in> visited st")
      case True
      with w show ?thesis by simp
    next
      case nv: False
      define st1 where "st1 = st\<lparr>visited := insert (key_of e dir) (visited st), listed := listed st @ [dir]\<rparr>"
      have f1: "found st1 = found st" by (simp add: st1_def)
      show ?thesis
      proof (cases "readdirSync e dir")
        case None
        with w nv have "st' = st1" by (simp add: st1_def)
        then show ?thesis by (simp add: f1)
      next
        case (Some ds)
        with w nv obtain hm he st2 where
          we: "walk_entries n e dir ds (False, False) st1 = Some ((hm, he), st2)"
          and st': "st' = (if hm \<and> he then st2\<lparr>found := set_add dir (found st2)\<rparr> else st2)"
          by (auto simp: st1_def Let_def split: option.splits prod.splits)
        have "\<exists>a. found st2 = found st1 @ a"
          using "2.IH"[OF refl nv st1_def Some, rule_format, OF we] .
        then obtain a where a: "found st2 = found st @ a" unfolding f1 ..
        obtain b where b: "set_add dir (found st2) = found st2 @ b"
          using set_add_prefix[of dir "found st2"] ..
        show ?thesis
        proof (cases "hm \<and> he")
          case True
          then have "found st' = found st @ (a @ b)" using a b by (simp add: st')
          then show ?thesis ..
        next
          case False
          then have "st' = st2" using st' by auto
          then have "found st' = found st @ a" using a by simp
          then show ?thesis ..
        qed
      qed
    qed
  qed
next
  case (3 n e dir flags st)
  then show ?case by simp
next
  case (4 n e dir d ds hasMap hasElf st)
  show ?case
  proof (intro allI impI)
    fix r st'
    assume w: "walk_entries n e dir (d # ds) (hasMap, hasElf) st = Some (r, st')"
    show "\<exists>add. found st' = found st @ add"
    proof (cases "isDirectory d")
      case True
      with w obtain st1 where w1: "walk n e (path_join e dir (name d)) st = Some st1"
        and w2: "walk_entries n e dir ds (hasMap, hasElf) st1 = Some (r, st')"
        by (auto simp: Let_def split: option.splits)
      from "4.IH"(1)[OF refl True, rule_format, OF w1]
      obtain a where a: "found st1 = found st @ a" ..
      from "4.IH"(2)[OF refl True w1, rule_format, OF w2]
      obtain b where b: "found st' = found st1 @ b" ..
      from a b have "found st' = found st @ (a @ b)" by simp
      then show ?thesis ..
    next
      case nd: False
      show ?thesis
      proof (cases "endsWith (name d) ''.map''")
        case True
        with w nd have w3: "walk_entries n e dir ds (True, hasElf) st = Some (r, st')"
          by (simp add: Let_def)
        show ?thesis using "4.IH"(3)[OF refl nd True, rule_format, OF w3] .
      next
        case nm: False
        show ?thesis
        proof (cases "endsWith (name d) ''.elf''")
          case True
          with w nd nm have w4: "walk_entries n e dir ds (hasMap, True) st = Some (r, st')"
            by (simp add: Let_def)
          show ?thesis using "4.IH"(4)[OF refl nd nm True, rule_format, OF w4] .
        next
          case False
          with w nd nm have w5: "walk_entries n e dir ds (hasMap, hasElf) st = Some (r, st')"
            by (simp add: Let_def)
          show ?thesis using "4.IH"(5)[OF refl nd nm False, rule_format, OF w5] .
        qed
      qed
    qed
  qed
qed

lemma walk_found_prefix: "walk n e dir st = Some st' \<Longrightarrow> \<exists>add. found st' = found st @ add"
  using walk_found_prefix_aux(1)[rule_format] .

lemma walk_entries_found_prefix:
  "walk_entries n e dir ds fl st = Some (r, st') \<Longrightarrow> \<exists>add. found st' = found st @ add"
  using walk_found_prefix_aux(2)[rule_format] .

lemma walk_found_last:
  assumes w: "walk n e dir st = Some st'" and nv: "key_of e dir \<notin> visited st"
    and col: "colocated e dir" and nf: "dir \<notin> set (found st)"
  shows "\<exists>mid. found st' = found st @ mid @ [dir]"
proof -
  from col obtain ds where ds: "readdirSync e dir = Some ds"
    and hf: "has_file ''.elf'' ds \<and> has_file ''.map'' ds"
    by (auto simp: colocated_def split: option.splits)
  define st1 where "st1 = st\<lparr>visited := insert (key_of e dir) (visited st), listed := listed st @ [dir]\<rparr>"
  from walk_unvisited[OF w nv] obtain m where
    c: "case readdirSync e dir of
              None \<Rightarrow> st' = st1
            | Some ds \<Rightarrow>
                (\<exists>hm he st2.
                   walk_entries m e dir ds (False, False) st1 = Some ((hm, he), st2) \<and>
                   st' = (if hm \<and> he then st2\<lparr>found := set_add dir (found st2)\<rparr> else st2))"
    unfolding st1_def by blast
  from c ds obtain hm he st2 where
    we: "walk_entries m e dir ds (False, False) st1 = Some ((hm, he), st2)"
    and st': "st' = (if hm \<and> he then st2\<lparr>found := set_add dir (found st2)\<rparr> else st2)"
    by auto
  from walk_entries_flags[OF we] hf have fl: "hm \<and> he" by simp
  have g: "grows e st1 st2" using we by (rule walk_entries_grows)
  from walk_entries_found_prefix[OF we] obtain mid where mid: "found st2 = found st1 @ mid" ..
  have f1: "found st1 = found st" by (simp add: st1_def)
  from g have f2: "set (found st2) = set (found st1) \<union> {D \<in> set (new_listed st1 st2). colocated e D}"
    and dj: "key_of e ` set (new_listed st1 st2) \<inter> visited st1 = {}"
    by (simp_all add: grows_def Let_def)
  have "key_of e dir \<in> visited st1" by (simp add: st1_def)
  with dj have "dir \<notin> set (new_listed st1 st2)" by blast
  with f2 nf f1 have nd: "dir \<notin> set (found st2)" by simp
  from fl have "found st' = set_add dir (found st2)" by (simp add: st')
  also have "\<dots> = found st2 @ [dir]" using nd by (simp add: set_add_def)
  also have "\<dots> = found st @ mid @ [dir]" using mid f1 by simp
  finally show ?thesis ..
qed

lemma walk_parent:
  "walk n e dir st = Some st' \<Longrightarrow> q \<in> set (new_listed st st') \<Longrightarrow>
   q = dir \<or> has_parent e (new_listed st st') q"
  using walk_parent_aux(1)[rule_format] .

lemma walk_list_grows: "walk_list n e cs st = Some st' \<Longrightarrow> grows e st st'"
proof (induction cs arbitrary: st)
  case Nil
  then show ?case by (simp add: grows_refl)
next
  case (Cons c cs)
  then obtain st1 where w: "walk n e c st = Some st1" and r: "walk_list n e cs st1 = Some st'"
    by (auto split: option.splits)
  from walk_grows[OF w] Cons.IH[OF r] show ?case by (rule grows_trans)
qed

lemma walk_list_parent:
  "walk_list n e cs st = Some st' \<Longrightarrow> q \<in> set (new_listed st st') \<Longrightarrow>
   q \<in> set cs \<or> has_parent e (new_listed st st') q"
proof (induction cs arbitrary: st)
  case Nil
  then show ?case by (simp add: new_listed_def)
next
  case (Cons c cs)
  then obtain st1 where w: "walk n e c st = Some st1" and r: "walk_list n e cs st1 = Some st'"
    by (auto split: option.splits)
  have l1: "listed st1 = listed st @ new_listed st st1" using walk_grows[OF w] by (rule grows_listed)
  have l2: "listed st' = listed st1 @ new_listed st1 st'"
    using walk_list_grows[OF r] by (rule grows_listed)
  have n: "new_listed st st' = new_listed st st1 @ new_listed st1 st'"
    using l1 l2 by (rule new_listed_trans)
  from Cons.prems(2) n consider "q \<in> set (new_listed st st1)" | "q \<in> set (new_listed st1 st')"
    by auto
  then show ?case
  proof cases
    case 1
    from walk_parent[OF w 1] show ?thesis
    proof
      assume "q = c"
      then show ?thesis by simp
    next
      assume "has_parent e (new_listed st st1) q"
      then have "has_parent e (new_listed st st') q" by (rule has_parent_mono) (simp add: n)
      then show ?thesis by simp
    qed
  next
    case 2
    from Cons.IH[OF r 2] show ?thesis
    proof
      assume "q \<in> set cs"
      then show ?thesis by simp
    next
      assume "has_parent e (new_listed st1 st') q"
      then have "has_parent e (new_listed st st') q" by (rule has_parent_mono) (simp add: n)
      then show ?thesis by simp
    qed
  qed
qed

lemma findBuildFolders_parent:
  assumes "findBuildFolders n e root = Some st" and "q \<in> set (listed st)"
  shows "q = root \<or> q \<in> set (filter (existsSync e) (map (path_join e root) common_names)) \<or>
         has_parent e (listed st) q"
proof -
  let ?cs = "filter (existsSync e) (map (path_join e root) common_names)"
  from assms(1) obtain st1 where c: "walk_list n e ?cs init_wstate = Some st1"
    and r: "(if found st1 = [] then walk n e root st1 else Some st1) = Some st"
    by (auto simp: findBuildFolders_def walk_common_filter Let_def split: option.splits)
  have i: "\<And>s. new_listed init_wstate s = listed s" by (simp add: new_listed_def init_wstate_def)
  have p1: "\<And>x. x \<in> set (listed st1) \<Longrightarrow> x \<in> set ?cs \<or> has_parent e (listed st1) x"
    using walk_list_parent[OF c] by (simp add: i)
  show ?thesis
  proof (cases "found st1 = []")
    case False
    with r have "st = st1" by simp
    with p1 assms(2) show ?thesis by blast
  next
    case True
    with r have w: "walk n e root st1 = Some st" by simp
    have l: "listed st = listed st1 @ new_listed st1 st" using walk_grows[OF w] by (rule grows_listed)
    from assms(2) l consider "q \<in> set (listed st1)" | "q \<in> set (new_listed st1 st)"
      by (metis Un_iff set_append)
    then show ?thesis
    proof cases
      case 1
      from p1[OF 1] show ?thesis
      proof
        assume "q \<in> set ?cs"
        then show ?thesis by simp
      next
        assume "has_parent e (listed st1) q"
        then have "has_parent e (listed st) q"
          by (rule has_parent_mono) (metis l set_append Un_upper1)
        then show ?thesis by simp
      qed
    next
      case 2
      from walk_parent[OF w 2] show ?thesis
      proof
        assume "q = root"
        then show ?thesis by simp
      next
        assume "has_parent e (new_listed st1 st) q"
        then have "has_parent e (listed st) q"
          by (rule has_parent_mono) (metis l set_append Un_upper2)
        then show ?thesis by simp
      qed
    qed
  qed
qed

text \<open>
  Claim C2. A walk within the depth bound returns. A walk that returns lists its start
  directory, unless the key of that directory was visited before, and after it the key
  of every real subdirectory of a directory it lists is visited; the directories it
  visits are those it lists, \<open>new_listed st st'\<close>. Such a directory is added to the
  found set exactly when its own listing holds an entry that is not a directory and
  ends with \<^verbatim>\<open>.elf\<close> and one that ends with \<^verbatim>\<open>.map\<close>; what its subdirectories
  hold does not count.
\<close>

theorem walk_found_iff_colocated:
  "(depth_le n e dir \<longrightarrow> (\<exists>st'. walk n e dir st = Some st')) \<and>
   (\<forall>st'. walk n e dir st = Some st' \<longrightarrow>
      listed st' = listed st @ new_listed st st' \<and>
      visited st' = visited st \<union> key_of e ` set (new_listed st st') \<and>
      (key_of e dir \<notin> visited st \<longrightarrow> dir \<in> set (new_listed st st')) \<and>
      children_visited e (new_listed st st') (visited st') \<and>
      set (found st') = set (found st) \<union> {D \<in> set (new_listed st st'). colocated e D} \<and>
      (key_of e dir \<notin> visited st \<and> dir \<notin> set (found st) \<longrightarrow>
         (dir \<in> set (found st') \<longleftrightarrow> colocated e dir)))"
proof -
  have t: "depth_le n e dir \<longrightarrow> (\<exists>st'. walk n e dir st = Some st')"
    using walk_total[of n e dir st] by blast
  have r: "\<forall>st'. walk n e dir st = Some st' \<longrightarrow>
      listed st' = listed st @ new_listed st st' \<and>
      visited st' = visited st \<union> key_of e ` set (new_listed st st') \<and>
      (key_of e dir \<notin> visited st \<longrightarrow> dir \<in> set (new_listed st st')) \<and>
      children_visited e (new_listed st st') (visited st') \<and>
      set (found st') = set (found st) \<union> {D \<in> set (new_listed st st'). colocated e D} \<and>
      (key_of e dir \<notin> visited st \<and> dir \<notin> set (found st) \<longrightarrow>
         (dir \<in> set (found st') \<longleftrightarrow> colocated e dir))"
  proof (intro allI impI)
    fix st' assume w: "walk n e dir st = Some st'"
    have g: "grows e st st'" using w by (rule walk_grows)
    have a: "listed st' = listed st @ new_listed st st'" using g by (rule grows_listed)
    have b: "visited st' = visited st \<union> key_of e ` set (new_listed st st')"
      using g by (rule grows_visited)
    have c: "key_of e dir \<notin> visited st \<longrightarrow> dir \<in> set (new_listed st st')"
    proof
      assume "key_of e dir \<notin> visited st"
      from walk_lists_start[OF w this] obtain rest where "new_listed st st' = dir # rest" ..
      then show "dir \<in> set (new_listed st st')" by simp
    qed
    have d: "children_visited e (new_listed st st') (visited st')" using w by (rule walk_children)
    have f: "set (found st') = set (found st) \<union> {D \<in> set (new_listed st st'). colocated e D}"
      using g by (simp add: grows_def Let_def)
    have h: "key_of e dir \<notin> visited st \<and> dir \<notin> set (found st) \<longrightarrow>
         (dir \<in> set (found st') \<longleftrightarrow> colocated e dir)"
      using c f by auto
    from a b c d f h
    show "listed st' = listed st @ new_listed st st' \<and>
      visited st' = visited st \<union> key_of e ` set (new_listed st st') \<and>
      (key_of e dir \<notin> visited st \<longrightarrow> dir \<in> set (new_listed st st')) \<and>
      children_visited e (new_listed st st') (visited st') \<and>
      set (found st') = set (found st) \<union> {D \<in> set (new_listed st st'). colocated e D} \<and>
      (key_of e dir \<notin> visited st \<and> dir \<notin> set (found st) \<longrightarrow>
         (dir \<in> set (found st') \<longleftrightarrow> colocated e dir))"
      by (intro conjI)
  qed
  from t r show ?thesis by (rule conjI)
qed

text \<open>
  The theorem at \<open>build_env\<close>, walked from \<^verbatim>\<open>/w/build\<close>, which holds both kinds of
  file and is found, and from \<^verbatim>\<open>/w\<close>, which is listed with it and is not found; and
  at \<open>nested_env\<close>, where \<^verbatim>\<open>/w\<close> holds \<^verbatim>\<open>app.elf\<close> and the map file lies in
  \<^verbatim>\<open>/w/sub\<close>: both are visited and none is found. The suffix test is case-sensitive.
\<close>

theorem walk_found_iff_colocated_witness:
  "depth_le 1 build_env ''/w/build'' \<and> depth_le 2 build_env ''/w'' \<and>
   key_of build_env ''/w/build'' \<notin> visited init_wstate \<and>
   ''/w/build'' \<notin> set (found init_wstate) \<and>
   colocated build_env ''/w/build'' \<and> \<not> colocated build_env ''/w'' \<and>
   map_option found (walk 1 build_env ''/w/build'' init_wstate) = Some [''/w/build''] \<and>
   map_option listed (walk 2 build_env ''/w'' init_wstate) = Some [''/w'', ''/w/build''] \<and>
   map_option found (walk 2 build_env ''/w'' init_wstate) = Some [''/w/build''] \<and>
   map_option listed (walk 2 nested_env ''/w'' init_wstate) = Some [''/w'', ''/w/sub''] \<and>
   map_option found (walk 2 nested_env ''/w'' init_wstate) = Some [] \<and>
   \<not> colocated nested_env ''/w'' \<and> \<not> colocated nested_env ''/w/sub'' \<and>
   has_file ''.elf'' [regular ''app.elf''] \<and> \<not> has_file ''.elf'' [regular ''APP.ELF'']"
proof -
  have d: "depth_le 1 build_env ''/w/build''" "depth_le 2 build_env ''/w''" by code_simp+
  have k: "key_of build_env ''/w/build'' \<notin> visited init_wstate"
    "''/w/build'' \<notin> set (found init_wstate)" by (simp_all add: init_wstate_def)
  have c: "colocated build_env ''/w/build''" "\<not> colocated build_env ''/w''"
    "\<not> colocated nested_env ''/w''" "\<not> colocated nested_env ''/w/sub''" by code_simp+
  have cs: "has_file ''.elf'' [regular ''app.elf'']" "\<not> has_file ''.elf'' [regular ''APP.ELF'']"
    by code_simp+
  have e: "map_option listed (walk 2 build_env ''/w'' init_wstate) = Some [''/w'', ''/w/build'']"
    "map_option found (walk 2 build_env ''/w'' init_wstate) = Some [''/w/build'']"
    "map_option listed (walk 2 nested_env ''/w'' init_wstate) = Some [''/w'', ''/w/sub'']"
    "map_option found (walk 2 nested_env ''/w'' init_wstate) = Some []"
    by code_simp+
  note t = walk_found_iff_colocated[of 1 build_env "''/w/build''" init_wstate]
  from t d(1) obtain S where w: "walk 1 build_env ''/w/build'' init_wstate = Some S" by blast
  from t w k c(1) have m: "''/w/build'' \<in> set (found S)" by blast
  have "map_option found (walk 1 build_env ''/w/build'' init_wstate) = Some [''/w/build'']"
    by code_simp
  with d k c cs e m w show ?thesis by simp
qed

text \<open>
  Claim C10, as stated, fails for a walk that starts at a symbolic link. The only entry
  of \<^verbatim>\<open>/w\<close> is the link \<^verbatim>\<open>build\<close> to a directory outside the workspace, which can
  be reached through that link only. \<^verbatim>\<open>existsSync\<close> and \<^verbatim>\<open>readdirSync\<close> read
  through the link: the loop of lines 173 to 177 walks \<^verbatim>\<open>/w/build\<close>, and the walk
  lists that directory and adds it to the found folders.
\<close>

theorem walk_follows_directories_only_counterexample:
  "readdirSync linkroot_env ''/w'' = Some [symlink ''build''] \<and>
   realpath linkroot_env ''/w/build'' = ''/elsewhere/out'' \<and>
   existsSync linkroot_env ''/w/build'' \<and>
   map_option listed (walk 2 linkroot_env ''/w/build'' init_wstate) = Some [''/w/build''] \<and>
   map_option found (walk 2 linkroot_env ''/w/build'' init_wstate) = Some [''/w/build''] \<and>
   map_option found (findBuildFolders 2 linkroot_env ''/w'') = Some [''/w/build'']"
  by code_simp

text \<open>
  Claim C10, amended. A walk recurses only into entries that the listing reports as real
  directories: every path it lists, but the one it started from, is the join of a listed
  directory with the name of a \<open>Directory\<close> entry of that directory, and only listed
  paths are added to the found folders. An entry that is a symbolic link is never a
  way into a directory, and counts as a file when its name ends with \<^verbatim>\<open>.elf\<close> or
  \<^verbatim>\<open>.map\<close>. The path a walk starts from is listed whatever it is: in one call of
  \<open>findBuildFolders\<close> every listed path is the workspace root, one of the conventional
  folders that exist, or reached from a listed directory through a \<open>Directory\<close> entry.
\<close>

theorem walk_follows_directories_only:
  assumes "walk n e dir st = Some st'" and "findBuildFolders n e root = Some s"
  shows "(\<forall>q\<in>set (new_listed st st'). q = dir \<or> has_parent e (new_listed st st') q) \<and>
         set (found st') \<subseteq> set (found st) \<union> set (new_listed st st') \<and>
         (\<forall>D\<in>set (new_listed st st').
            (case readdirSync e D of
               None \<Rightarrow> False
             | Some ds \<Rightarrow> (has_link ''.elf'' ds \<or> has_file ''.elf'' ds) \<and>
                          (has_link ''.map'' ds \<or> has_file ''.map'' ds)) \<longrightarrow>
            D \<in> set (found st')) \<and>
         (\<forall>q\<in>set (listed s).
            q = root \<or>
            q \<in> set (filter (existsSync e)
                       (map (path_join e root)
                          [''build'', ''Build'', ''Release'', ''Debug'', ''out'', ''output''])) \<or>
            has_parent e (listed s) q)"
proof -
  have p: "\<forall>q\<in>set (new_listed st st'). q = dir \<or> has_parent e (new_listed st st') q"
    using walk_parent[OF assms(1)] by blast
  have lf: "has_link ext ds \<Longrightarrow> has_file ext ds" for ext ds
    by (induction ds) (auto simp: has_link_def has_file_def isDirectory_def)
  from walk_grows[OF assms(1)]
  have f: "set (found st') = set (found st) \<union> {D \<in> set (new_listed st st'). colocated e D}"
    by (simp add: grows_def Let_def)
  have sub: "set (found st') \<subseteq> set (found st) \<union> set (new_listed st st')"
    using f by auto
  have fl: "\<forall>D\<in>set (new_listed st st').
            (case readdirSync e D of
               None \<Rightarrow> False
             | Some ds \<Rightarrow> (has_link ''.elf'' ds \<or> has_file ''.elf'' ds) \<and>
                          (has_link ''.map'' ds \<or> has_file ''.map'' ds)) \<longrightarrow>
            D \<in> set (found st')"
    using f lf by (auto simp: colocated_def split: option.splits)
  have top: "\<forall>q\<in>set (listed s).
            q = root \<or>
            q \<in> set (filter (existsSync e)
                       (map (path_join e root)
                          [''build'', ''Build'', ''Release'', ''Debug'', ''out'', ''output''])) \<or>
            has_parent e (listed s) q"
    using findBuildFolders_parent[OF assms(2)] by (simp add: common_names_def)
  from p sub fl top show ?thesis by (intro conjI)
qed

text \<open>
  The theorem at \<open>link_env\<close>: \<^verbatim>\<open>/w\<close> holds a link \<^verbatim>\<open>ext\<close> to a directory with a valid
  pair, a link named \<^verbatim>\<open>app.elf\<close> and a file \<^verbatim>\<open>app.map\<close>. Only \<^verbatim>\<open>/w\<close> is listed,
  and it is found.
\<close>

theorem walk_follows_directories_only_witness:
  "map_option listed (walk 2 link_env ''/w'' init_wstate) = Some [''/w''] \<and>
   map_option found (walk 2 link_env ''/w'' init_wstate) = Some [''/w''] \<and>
   map_option listed (findBuildFolders 2 link_env ''/w'') = Some [''/w''] \<and>
   readdirSync link_env ''/w'' =
     Some [symlink ''ext'', symlink ''app.elf'', regular ''app.map''] \<and>
   has_link ''.elf'' [symlink ''ext'', symlink ''app.elf'', regular ''app.map''] \<and>
   has_file ''.map'' [symlink ''ext'', symlink ''app.elf'', regular ''app.map''] \<and>
   colocated link_env ''/w/ext''"
proof -
  have l: "map_option listed (walk 2 link_env ''/w'' init_wstate) = Some [''/w'']"
    by code_simp
  have b: "map_option listed (findBuildFolders 2 link_env ''/w'') = Some [''/w'']"
    by code_simp
  have r: "readdirSync link_env ''/w'' =
     Some [symlink ''ext'', symlink ''app.elf'', regular ''app.map'']"
    by (simp add: link_env_def base_env_def)
  have h: "has_link ''.elf'' [symlink ''ext'', symlink ''app.elf'', regular ''app.map'']"
    "has_file ''.map'' [symlink ''ext'', symlink ''app.elf'', regular ''app.map'']"
    "colocated link_env ''/w/ext''"
    by code_simp+
  from l obtain S where w: "walk 2 link_env ''/w'' init_wstate = Some S" by auto
  from b obtain T where t: "findBuildFolders 2 link_env ''/w'' = Some T" by auto
  from l w have n: "new_listed init_wstate S = [''/w'']"
    by (simp add: new_listed_def init_wstate_def)
  from walk_follows_directories_only[OF w t] n r h have "''/w'' \<in> set (found S)" by simp
  moreover have "map_option found (walk 2 link_env ''/w'' init_wstate) = Some [''/w'']"
    by code_simp
  ultimately show ?thesis using l b r h by simp
qed

text \<open>
  Claim C3. The code at an input on which it departs from the claim. The build folder
  holds a directory named \<^verbatim>\<open>fw.elf\<close> and the files \<^verbatim>\<open>fw.map\<close> and \<^verbatim>\<open>z.elf\<close>. The
  walk takes \<^verbatim>\<open>fw.elf\<close> for what it is, a directory, and lists it; the folder is
  found for its two files. Line 57 then reads the names without their kinds: the
  directory is paired with \<^verbatim>\<open>fw.map\<close> and returned as the binary, and the one
  binary file, \<^verbatim>\<open>z.elf\<close>, gives no candidate.
\<close>

theorem pairing_takes_directory_for_binary:
  "readdirSync dirpair_env ''/w/build'' =
     Some [subdir ''fw.elf'', regular ''fw.map'', regular ''z.elf''] \<and>
   map_option listed (findBuildFolders 3 dirpair_env ''/w'') =
     Some [''/w/build'', ''/w/build/fw.elf''] \<and>
   map_option found (findBuildFolders 3 dirpair_env ''/w'') = Some [''/w/build''] \<and>
   resolve 3 dirpair_env =
     Some (Inr \<lparr>map_path = ''/w/build/fw.map'', elf_path = ''/w/build/fw.elf'',
                toolchainPath = None\<rparr>,
           \<lparr>listings = [''/w/build'', ''/w/build/fw.elf'', ''/w/build''], prompts = [],
              notices = []\<rparr>)"
  by code_simp

text \<open>
  Claim C6, as stated, fails in its last part. The walk meets \<^verbatim>\<open>/w/proj\<close> before its
  subdirectory \<^verbatim>\<open>/w/proj/sub\<close>, and each holds a pair; a folder is recorded as found
  once its entries have all been gone through, so that the subdirectory is recorded
  first. The prompt lists the candidate of the subdirectory first, and that candidate
  is the one selected before the prompt.
\<close>

theorem selection_over_candidates_counterexample:
  "map_option listed (findBuildFolders 3 order_env ''/w'') =
     Some [''/w'', ''/w/proj'', ''/w/proj/sub''] \<and>
   map_option found (findBuildFolders 3 order_env ''/w'') = Some [''/w/proj/sub'', ''/w/proj''] \<and>
   detail (order_items ! 0) = ''/w/proj/sub'' \<and>
   resolve 3 order_env =
     Some (Inl SelectionCancelledError,
           \<lparr>listings = [''/w'', ''/w/proj'', ''/w/proj/sub'', ''/w/proj/sub'', ''/w/proj''],
              prompts = [order_items], notices = []\<rparr>)"
  by code_simp

text \<open>
  Claim C6, amended. With one collected candidate, \<open>resolve\<close> returns it and shows no
  prompt. With more than one it shows one prompt that lists them all; dismissing the
  prompt makes \<open>resolve\<close> fail with the selection-cancelled error, and a choice is
  returned. The candidate selected before any prompt is the first of the list, and the
  list follows the found folders, which stand in the order in which the walker records
  them: a walk only appends to the found folders, and a folder that is found is
  appended after every folder found during its own walk, so that a folder comes after
  the folders found below it.
\<close>

theorem selection_over_candidates:
  assumes "fast_path e = None" and "workspaceFolders e = Some (root # others)"
    and "findBuildFolders n e root = Some st" and "found st \<noteq> []"
    and "collect_items e (found st) [] (listed st) = (Inr items, tr)"
  shows "items = all_candidates e (found st) \<and>
         (\<forall>c. items = [c] \<longrightarrow>
            resolve n e =
              Some (Inr \<lparr>map_path = map_file c, elf_path = elf c,
                         toolchainPath = fst (getToolchainPath e)\<rparr>,
                    \<lparr>listings = tr, prompts = [], notices = snd (getToolchainPath e)\<rparr>)) \<and>
         (1 < length items \<longrightarrow>
            (showQuickPick e items = None \<longrightarrow>
               resolve n e =
                 Some (Inl SelectionCancelledError,
                       \<lparr>listings = tr, prompts = [items], notices = []\<rparr>)) \<and>
            (\<forall>pick. showQuickPick e items = Some pick \<longrightarrow>
               resolve n e =
                 Some (Inr \<lparr>map_path = map_file pick, elf_path = elf pick,
                            toolchainPath = fst (getToolchainPath e)\<rparr>,
                       \<lparr>listings = tr, prompts = [items],
                          notices = snd (getToolchainPath e)\<rparr>))) \<and>
         (\<forall>m dir s s'. walk m e dir s = Some s' \<longrightarrow> (\<exists>add. found s' = found s @ add)) \<and>
         (\<forall>m dir s s'.
            walk m e dir s = Some s' \<and> key_of e dir \<notin> visited s \<and> colocated e dir \<and>
            dir \<notin> set (found s) \<longrightarrow>
            (\<exists>mid. found s' = found s @ mid @ [dir]))"
proof -
  have r: "resolve n e = Some (select_item e items tr)"
    using assms by (simp add: resolve_def)
  have i: "items = all_candidates e (found st)"
    using collect_items_eq[OF found_readable[OF assms(3)], of "[]" "listed st"] assms(5) by simp
  have one: "\<forall>c. items = [c] \<longrightarrow>
            resolve n e =
              Some (Inr \<lparr>map_path = map_file c, elf_path = elf c,
                         toolchainPath = fst (getToolchainPath e)\<rparr>,
                    \<lparr>listings = tr, prompts = [], notices = snd (getToolchainPath e)\<rparr>)"
    by (simp add: r select_item_cases finish_eq)
  have many: "1 < length items \<longrightarrow>
            (showQuickPick e items = None \<longrightarrow>
               resolve n e =
                 Some (Inl SelectionCancelledError,
                       \<lparr>listings = tr, prompts = [items], notices = []\<rparr>)) \<and>
            (\<forall>pick. showQuickPick e items = Some pick \<longrightarrow>
               resolve n e =
                 Some (Inr \<lparr>map_path = map_file pick, elf_path = elf pick,
                            toolchainPath = fst (getToolchainPath e)\<rparr>,
                       \<lparr>listings = tr, prompts = [items],
                          notices = snd (getToolchainPath e)\<rparr>))"
  proof (cases items)
    case Nil
    then show ?thesis by simp
  next
    case (Cons c cs)
    then show ?thesis by (cases cs) (simp_all add: r select_item_cases finish_eq)
  qed
  have pre: "\<forall>m dir s s'. walk m e dir s = Some s' \<longrightarrow> (\<exists>add. found s' = found s @ add)"
    using walk_found_prefix by (intro allI impI)
  have post: "\<forall>m dir s s'.
            walk m e dir s = Some s' \<and> key_of e dir \<notin> visited s \<and> colocated e dir \<and>
            dir \<notin> set (found s) \<longrightarrow>
            (\<exists>mid. found s' = found s @ mid @ [dir])"
  proof (intro allI impI)
    fix m dir s s'
    assume a: "walk m e dir s = Some s' \<and> key_of e dir \<notin> visited s \<and> colocated e dir \<and>
            dir \<notin> set (found s)"
    then have "walk m e dir s = Some s'" "key_of e dir \<notin> visited s" "colocated e dir"
      "dir \<notin> set (found s)" by simp_all
    then show "\<exists>mid. found s' = found s @ mid @ [dir]" by (rule walk_found_last)
  qed
  from i one many pre post show ?thesis by (intro conjI)
qed

text \<open>
  The theorem at \<open>two_env\<close>, whose build folder holds two pairs and whose user
  dismisses the prompt, and at \<open>build_env\<close>, which holds one pair; the walk of
  \<^verbatim>\<open>/w/proj\<close> in \<open>order_env\<close> appends the subdirectory and then \<^verbatim>\<open>/w/proj\<close> itself.
\<close>

theorem selection_over_candidates_witness:
  "fast_path two_env = None \<and> workspaceFolders two_env = Some [''/w''] \<and>
   map_option found (findBuildFolders 2 two_env ''/w'') = Some [''/w/build''] \<and>
   collect_items two_env [''/w/build''] [] [''/w/build''] =
     (Inr two_items, [''/w/build'', ''/w/build'']) \<and>
   showQuickPick two_env two_items = None \<and>
   resolve 2 two_env =
     Some (Inl SelectionCancelledError,
           \<lparr>listings = [''/w/build'', ''/w/build''], prompts = [two_items], notices = []\<rparr>) \<and>
   resolve 2 build_env =
     Some (Inr \<lparr>map_path = ''/w/build/app.map'', elf_path = ''/w/build/app.elf'',
                toolchainPath = None\<rparr>,
           \<lparr>listings = [''/w/build'', ''/w/build''], prompts = [], notices = []\<rparr>) \<and>
   key_of order_env ''/w/proj'' \<notin> visited init_wstate \<and> colocated order_env ''/w/proj'' \<and>
   map_option found (walk 2 order_env ''/w/proj'' init_wstate) =
     Some [''/w/proj/sub'', ''/w/proj'']"
proof -
  have f: "fast_path two_env = None" by code_simp
  have w: "workspaceFolders two_env = Some [''/w'']" by (simp add: two_env_def base_env_def)
  have b: "map_option found (findBuildFolders 2 two_env ''/w'') = Some [''/w/build'']"
    by code_simp
  have l: "map_option listed (findBuildFolders 2 two_env ''/w'') = Some [''/w/build'']"
    by code_simp
  have c: "collect_items two_env [''/w/build''] [] [''/w/build''] =
     (Inr two_items, [''/w/build'', ''/w/build''])" by code_simp
  have q: "showQuickPick two_env two_items = None" by (simp add: two_env_def base_env_def)
  have n: "1 < length two_items" by (simp add: two_items_def)
  from b obtain S where s: "findBuildFolders 2 two_env ''/w'' = Some S" by auto
  with b l have S: "found S = [''/w/build'']" "listed S = [''/w/build'']" by simp_all
  have nf: "found S \<noteq> []" using S by simp
  have c': "collect_items two_env (found S) [] (listed S) =
     (Inr two_items, [''/w/build'', ''/w/build''])" using c S by simp
  from selection_over_candidates[OF f w s nf c'] n q
  have r: "resolve 2 two_env =
     Some (Inl SelectionCancelledError,
           \<lparr>listings = [''/w/build'', ''/w/build''], prompts = [two_items], notices = []\<rparr>)"
    by blast
  have o: "resolve 2 build_env =
     Some (Inr \<lparr>map_path = ''/w/build/app.map'', elf_path = ''/w/build/app.elf'',
                toolchainPath = None\<rparr>,
           \<lparr>listings = [''/w/build'', ''/w/build''], prompts = [], notices = []\<rparr>)"
    by code_simp
  have k: "key_of order_env ''/w/proj'' \<notin> visited init_wstate"
    by (simp add: init_wstate_def)
  have p: "colocated order_env ''/w/proj''"
    "map_option found (walk 2 order_env ''/w/proj'' init_wstate) =
       Some [''/w/proj/sub'', ''/w/proj'']" by code_simp+
  from f w b c q r o k p show ?thesis by simp
qed

end
